theory Spec2Isabelle
  imports Main "HOL-Library.Char_ord" "HOL-Library.List_Lexorder"
begin

section \<open>Cell names and reference extraction\<close>

text \<open>
  The source is \<^verbatim>\<open>spreadsheet_main.py\<close>. Formula texts are modelled as lists of
  ASCII characters. Python's \<^verbatim>\<open>str.upper\<close> and the classes \<^verbatim>\<open>\b\<close>, \<^verbatim>\<open>\w\<close> of
  \<^verbatim>\<open>re\<close> are Unicode-aware; the model agrees with them on ASCII text.
\<close>

definition is_upper :: "char \<Rightarrow> bool" where
  "is_upper c = (c \<in> set ''ABCDEFGHIJKLMNOPQRSTUVWXYZ'')"

definition is_lower :: "char \<Rightarrow> bool" where
  "is_lower c = (c \<in> set ''abcdefghijklmnopqrstuvwxyz'')"

definition is_digit :: "char \<Rightarrow> bool" where
  "is_digit c = (c \<in> set ''0123456789'')"

text \<open>The class \<^verbatim>\<open>\w\<close>: letters, digits and the underscore.\<close>

definition is_word :: "char \<Rightarrow> bool" where
  "is_word c = (is_upper c \<or> is_lower c \<or> is_digit c \<or> c = CHR ''_'')"

text \<open>\<^verbatim>\<open>formula.upper()\<close>.\<close>

definition upper_char :: "char \<Rightarrow> char" where
  "upper_char c =
     (case map_of (zip ''abcdefghijklmnopqrstuvwxyz'' ''ABCDEFGHIJKLMNOPQRSTUVWXYZ'') c of
        Some u \<Rightarrow> u
      | None \<Rightarrow> c)"

definition upper :: "string \<Rightarrow> string" where
  "upper text = map upper_char text"

text \<open>
  \<^verbatim>\<open>cell_references = re.compile(r'\b[A-Z][0-9]\b')\<close> and its \<^verbatim>\<open>findall\<close>: the
  scan goes from left to right; the flag says whether the character before the
  current position is a word character (\<^verbatim>\<open>\b\<close> holds where exactly one side is one).
  After a match the scan resumes behind the digit.
\<close>

fun findall :: "bool \<Rightarrow> string \<Rightarrow> string list" where
  "findall prev [] = []"
| "findall prev [c] = []"
| "findall prev (c # d # rest) =
     (if \<not> prev \<and> is_upper c \<and> is_digit d \<and> (case rest of [] \<Rightarrow> True | e # _ \<Rightarrow> \<not> is_word e)
      then [c, d] # findall True rest
      else findall (is_word c) (d # rest))"

definition cell_references :: "string \<Rightarrow> string list" where
  "cell_references text = findall False text"

text \<open>\<^verbatim>\<open>str(n)\<close> for a natural number.\<close>

fun str_nat :: "nat \<Rightarrow> string" where
  "str_nat n =
     (if n < 10 then [''0123456789'' ! n]
      else str_nat (n div 10) @ [''0123456789'' ! (n mod 10)])"

declare str_nat.simps [simp del]

text \<open>
  \<^verbatim>\<open>cell_name(i, j)\<close> is \<^verbatim>\<open>f'{chr(ord("A")+j)}{i+1}'\<close>. A \<^typ>\<open>char\<close> has eight bits,
  so the column letter is the one Python computes for \<open>j < 191\<close>.
\<close>

definition cell_name :: "nat \<Rightarrow> nat \<Rightarrow> string" where
  "cell_name i j = char_of (65 + j) # str_nat (i + 1)"


section \<open>Values, exceptions and the evaluator\<close>

text \<open>
  A cell's value is whatever \<^verbatim>\<open>eval\<close> returned: the model has Python's unbounded
  integers and the empty tuple (a value that is not a number).
\<close>

datatype pyval = PyInt int | PyEmptyTuple

text \<open>
  The exceptions \<^verbatim>\<open>eval\<close> raises inside the \<^verbatim>\<open>try\<close> block; the handler passes
  \<^verbatim>\<open>str(e)\<close> on, which the model identifies with the exception. \<open>NotModelled\<close>
  marks a text outside the fragment of Python that \<open>py_eval\<close> below evaluates.
\<close>

datatype exn = SyntaxError | NameError string | TypeError | ZeroDivisionError | NotModelled

text \<open>
  Exceptions that leave \<^verbatim>\<open>calculate\<close>, \<^verbatim>\<open>propagate\<close> and \<^verbatim>\<open>display\<close> unhandled: a
  missing dictionary key or set element, a set that changed size while it was iterated,
  and an integer too long for \<^verbatim>\<open>str\<close>.
\<close>

datatype fault = KeyError string | RuntimeError | ValueError

text \<open>
  \<^verbatim>\<open>eval(formula, {}, environment)\<close> is Python's builtin, not code of the program:
  the engine takes it as a parameter. The environment is
  \<^verbatim>\<open>ChainMap(math.__dict__, req_values)\<close>: a name is read from the first map that has
  it, and an assignment expression of the formula writes into the first map, the
  namespace of the module \<^verbatim>\<open>math\<close>, where every later evaluation finds it. So the
  evaluator is a function of the formula text and of the two maps, and returns the
  value or the exception together with the first map as the evaluation left it.
  Iterating a Python set yields each element once, in an order the language leaves
  open: the order is the second parameter.
\<close>

type_synonym namespace = "string \<rightharpoonup> pyval"

type_synonym evaluator = "string \<Rightarrow> namespace \<Rightarrow> namespace \<Rightarrow> (exn + pyval) \<times> namespace"

type_synonym set_order = "string set \<Rightarrow> string list"

definition set_order_ok :: "set_order \<Rightarrow> bool" where
  "set_order_ok it = (\<forall>S. finite S \<longrightarrow> set (it S) = S \<and> distinct (it S))"

section \<open>Cells and the sheet\<close>

text \<open>
  \<^verbatim>\<open>SpreadSheetItem\<close>: the formula is the item's display-role data (\<open>None\<close> until
  the cell is edited), the other fields are those of \<^verbatim>\<open>__init__\<close>.
\<close>

record cell =
  formula :: "string option"
  val :: pyval
  deps :: "string set"
  reqs :: "string set"
  error_shown :: bool

text \<open>
  The state of the program: the dictionary \<^verbatim>\<open>cells\<close> that every item holds as
  \<^verbatim>\<open>siblings\<close>; the names that formulas have added to \<^verbatim>\<open>math.__dict__\<close> (the
  module's own names all have a lower-case letter, which no formula in upper case can
  name, and are left out); and two observations of the effects: the messages handed to
  \<^verbatim>\<open>show_error_message\<close>, and the names of the cells whose \<^verbatim>\<open>calculate\<close> was
  entered, both in order.
\<close>

record sheet =
  cells :: "string \<rightharpoonup> cell"
  math_dict :: namespace
  reports :: "exn list"
  calls :: "string list"

definition new_cell :: cell where
  "new_cell = \<lparr>formula = None, val = PyInt 0, deps = {}, reqs = {}, error_shown = False\<rparr>"

text \<open>\<^verbatim>\<open>SpreadSheet.create_widgets\<close>: one item per row and column, keyed by its name.\<close>

definition create_widgets :: "nat \<Rightarrow> nat \<Rightarrow> sheet" where
  "create_widgets rows cols =
     \<lparr>cells = map_of (map (\<lambda>(i, j). (cell_name i j, new_cell)) (List.product [0..<rows] [0..<cols])),
      math_dict = Map.empty, reports = [], calls = []\<rparr>"

text \<open>An assignment to a field of the item stored under \<open>nm\<close>.\<close>

definition upd_cell :: "string \<Rightarrow> (cell \<Rightarrow> cell) \<Rightarrow> sheet \<Rightarrow> sheet" where
  "upd_cell nm f s = s\<lparr>cells := (cells s)(nm := map_option f (cells s nm))\<rparr>"

text \<open>\<^verbatim>\<open>for r in current_reqs - self.reqs: self.siblings[r].deps.add(name)\<close>\<close>

fun add_dependent :: "string \<Rightarrow> string list \<Rightarrow> sheet \<Rightarrow> fault + sheet" where
  "add_dependent nm [] s = Inr s"
| "add_dependent nm (r # rs) s =
     (case cells s r of
        None \<Rightarrow> Inl (KeyError r)
      | Some c \<Rightarrow> add_dependent nm rs (upd_cell r (\<lambda>c. c\<lparr>deps := insert nm (deps c)\<rparr>) s))"

text \<open>\<^verbatim>\<open>for r in self.reqs - current_reqs: self.siblings[r].deps.remove(name)\<close>\<close>

fun remove_dependent :: "string \<Rightarrow> string list \<Rightarrow> sheet \<Rightarrow> fault + sheet" where
  "remove_dependent nm [] s = Inr s"
| "remove_dependent nm (r # rs) s =
     (case cells s r of
        None \<Rightarrow> Inl (KeyError r)
      | Some c \<Rightarrow>
          if nm \<in> deps c
          then remove_dependent nm rs (upd_cell r (\<lambda>c. c\<lparr>deps := deps c - {nm}\<rparr>) s)
          else Inl (KeyError nm))"

text \<open>\<^verbatim>\<open>req_values = {r: self.siblings[r].value for r in current_reqs}\<close>\<close>

fun req_values :: "string list \<Rightarrow> sheet \<Rightarrow> fault + (string \<rightharpoonup> pyval)" where
  "req_values [] s = Inr Map.empty"
| "req_values (r # rs) s =
     (case cells s r of
        None \<Rightarrow> Inl (KeyError r)
      | Some c \<Rightarrow>
          (case req_values rs s of
             Inl e \<Rightarrow> Inl e
           | Inr m \<Rightarrow> Inr (m(r \<mapsto> val c))))"

text \<open>
  The \<^verbatim>\<open>try\<close> statement of \<^verbatim>\<open>calculate\<close>: the result of \<^verbatim>\<open>eval\<close> is stored as it is
  and the flag reset; any exception is shown once, and the previous value stays. What
  the evaluation wrote into the namespace of \<^verbatim>\<open>math\<close> stays in either case.
\<close>

definition try_eval :: "evaluator \<Rightarrow> string \<Rightarrow> string \<Rightarrow> namespace \<Rightarrow> sheet \<Rightarrow> sheet" where
  "try_eval ev nm f req s =
     (case ev f (math_dict s) req of
        (Inr v, m) \<Rightarrow> upd_cell nm (\<lambda>c. c\<lparr>val := v, error_shown := False\<rparr>) (s\<lparr>math_dict := m\<rparr>)
      | (Inl e, m) \<Rightarrow>
          (case cells s nm of
             None \<Rightarrow> s\<lparr>math_dict := m\<rparr>
           | Some c \<Rightarrow>
               if \<not> error_shown c
               then upd_cell nm (\<lambda>c. c\<lparr>error_shown := True\<rparr>)
                      (s\<lparr>math_dict := m, reports := reports s @ [e]\<rparr>)
               else s\<lparr>math_dict := m\<rparr>))"

text \<open>
  \<^verbatim>\<open>SpreadSheetItem.calculate\<close> for the item stored under \<open>nm\<close>, which is
  \<^verbatim>\<open>cell_name(self.row(), self.column())\<close>.
\<close>

definition calculate :: "evaluator \<Rightarrow> set_order \<Rightarrow> string \<Rightarrow> sheet \<Rightarrow> fault + sheet" where
  "calculate ev it nm s0 =
     (let s = s0\<lparr>calls := calls s0 @ [nm]\<rparr> in
      case cells s nm of
        None \<Rightarrow> Inl (KeyError nm)
      | Some self \<Rightarrow>
          if formula self = None \<or> formula self = Some []
          then Inr (upd_cell nm (\<lambda>c. c\<lparr>val := PyInt 0\<rparr>) s)
          else
            let f = upper (the (formula self));
                current_reqs = set (cell_references f)
            in case add_dependent nm (it (current_reqs - reqs self)) s of
                 Inl e \<Rightarrow> Inl e
               | Inr s1 \<Rightarrow>
                   (case remove_dependent nm (it (reqs self - current_reqs)) s1 of
                      Inl e \<Rightarrow> Inl e
                    | Inr s2 \<Rightarrow>
                        (case req_values (it current_reqs) s2 of
                           Inl e \<Rightarrow> Inl e
                         | Inr req \<Rightarrow>
                             Inr (upd_cell nm (\<lambda>c. c\<lparr>reqs := current_reqs\<rparr>)
                                    (try_eval ev nm f req s2)))))"

text \<open>
  \<^verbatim>\<open>SpreadSheetItem.propagate\<close>. The recursion has no base case of its own, so the
  model takes the depth it may reach: \<open>None\<close> says that this depth did not suffice
  (CPython ends an unbounded recursion with \<^verbatim>\<open>RecursionError\<close>). The loop runs over the
  elements of \<^verbatim>\<open>self.deps\<close> at its start; before each step Python compares the size of
  the set with its size at the start and raises \<^verbatim>\<open>RuntimeError\<close> if they differ.
\<close>

fun propagate :: "evaluator \<Rightarrow> set_order \<Rightarrow> nat \<Rightarrow> string \<Rightarrow> sheet \<Rightarrow> (fault + sheet) option"
and propagate_loop ::
  "evaluator \<Rightarrow> set_order \<Rightarrow> nat \<Rightarrow> string \<Rightarrow> nat \<Rightarrow> string list \<Rightarrow> sheet \<Rightarrow> (fault + sheet) option"
where
  "propagate ev it 0 nm s = None"
| "propagate ev it (Suc n) nm s =
     (case cells s nm of
        None \<Rightarrow> Some (Inl (KeyError nm))
      | Some self \<Rightarrow> propagate_loop ev it n nm (card (deps self)) (it (deps self)) s)"
| "propagate_loop ev it n nm size0 ds s =
     (case cells s nm of
        None \<Rightarrow> Some (Inl (KeyError nm))
      | Some self \<Rightarrow>
          if card (deps self) \<noteq> size0 then Some (Inl RuntimeError)
          else
            (case ds of
               [] \<Rightarrow> Some (Inr s)
             | d # ds' \<Rightarrow>
                 (case calculate ev it d s of
                    Inl e \<Rightarrow> Some (Inl e)
                  | Inr s1 \<Rightarrow>
                      (case propagate ev it n d s1 of
                         None \<Rightarrow> None
                       | Some (Inl e) \<Rightarrow> Some (Inl e)
                       | Some (Inr s2) \<Rightarrow> propagate_loop ev it n nm size0 ds' s2))))"

declare propagate_loop.simps [simp del]

text \<open>
  \<^verbatim>\<open>str(self.value)\<close> raises \<^verbatim>\<open>ValueError\<close> for an integer of more than 4300 decimal
  digits (the default limit of CPython 3.11 and later).
\<close>

definition str_raises :: "pyval \<Rightarrow> bool" where
  "str_raises v = (case v of PyInt k \<Rightarrow> 4300 < length (str_nat (nat \<bar>k\<bar>)) | PyEmptyTuple \<Rightarrow> False)"

text \<open>
  \<^verbatim>\<open>SpreadSheetItem.display\<close>: \<^verbatim>\<open>calculate\<close>, then \<^verbatim>\<open>propagate\<close>, then the text of
  the value, which the model does not keep.
\<close>

definition display :: "evaluator \<Rightarrow> set_order \<Rightarrow> nat \<Rightarrow> string \<Rightarrow> sheet \<Rightarrow> (fault + sheet) option" where
  "display ev it n nm s =
     (case calculate ev it nm s of
        Inl e \<Rightarrow> Some (Inl e)
      | Inr s1 \<Rightarrow>
          (case propagate ev it n nm s1 of
             None \<Rightarrow> None
           | Some (Inl e) \<Rightarrow> Some (Inl e)
           | Some (Inr s2) \<Rightarrow>
               (case cells s2 nm of
                  None \<Rightarrow> Some (Inl (KeyError nm))
                | Some self \<Rightarrow>
                    if str_raises (val self) then Some (Inl ValueError) else Some (Inr s2))))"

text \<open>
  An edit: the delegate's \<^verbatim>\<open>setModelData\<close> stores the editor's text as the item's
  data, and the view then asks the item for its display text.
\<close>

definition set_formula :: "string \<Rightarrow> string \<Rightarrow> sheet \<Rightarrow> sheet" where
  "set_formula nm text s = upd_cell nm (\<lambda>c. c\<lparr>formula := Some text\<rparr>) s"

definition edit :: "evaluator \<Rightarrow> set_order \<Rightarrow> nat \<Rightarrow> string \<times> string \<Rightarrow> sheet \<Rightarrow> (fault + sheet) option" where
  "edit ev it n e s = display ev it n (fst e) (set_formula (fst e) (snd e) s)"

fun edits :: "evaluator \<Rightarrow> set_order \<Rightarrow> nat \<Rightarrow> (string \<times> string) list \<Rightarrow> sheet \<Rightarrow> (fault + sheet) option" where
  "edits ev it n [] s = Some (Inr s)"
| "edits ev it n (e # es) s =
     (case edit ev it n e s of
        None \<Rightarrow> None
      | Some (Inl x) \<Rightarrow> Some (Inl x)
      | Some (Inr s1) \<Rightarrow> edits ev it n es s1)"


section \<open>A fragment of Python's eval\<close>

text \<open>
  For concrete sheets the evaluator is \<open>py_eval\<close>: Python's \<^verbatim>\<open>eval\<close> on expressions
  made of decimal integer literals, names without lower-case letters, the empty tuple,
  parentheses, assignment expressions in parentheses, unary \<^verbatim>\<open>+ -\<close>, binary
  \<^verbatim>\<open>+ - * // %\<close> and spaces. A text with
  anything else (a call, a float, a string, a comparison, ...) is answered
  \<open>NotModelled\<close>, never \<open>SyntaxError\<close>: \<open>SyntaxError\<close> stands only where no Python
  expression has the tokens read so far as a beginning.
\<close>

datatype token =
  NUMBER int | NAME string | PLUS | MINUS | STAR | DOUBLESLASH | PERCENT | LPAR | RPAR | EQUAL
  | COLONEQUAL

datatype pending = NoToken | Digits string | Letters string

definition digit_value :: "char \<Rightarrow> int" where
  "digit_value c =
     (case map_of (zip ''0123456789'' [0, 1, 2, 3, 4, 5, 6, 7, 8, 9]) c of
        Some k \<Rightarrow> k
      | None \<Rightarrow> 0)"

definition decimal :: "string \<Rightarrow> int" where
  "decimal ds = foldl (\<lambda>a c. 10 * a + digit_value c) 0 ds"

text \<open>
  The token that ends at the current position. A literal with a leading zero and more
  digits, or with more digits than Python converts, is left outside the fragment.
\<close>

definition flush :: "pending \<Rightarrow> token list option" where
  "flush p =
     (case p of
        NoToken \<Rightarrow> Some []
      | Digits ds \<Rightarrow>
          if (hd ds = CHR ''0'' \<and> length ds > 1) \<or> length ds > 4300 then None
          else Some [NUMBER (decimal ds)]
      | Letters n \<Rightarrow> Some [NAME n])"

definition emit :: "pending \<Rightarrow> token list \<Rightarrow> token list option \<Rightarrow> token list option" where
  "emit p ts rest =
     (case flush p of
        None \<Rightarrow> None
      | Some t0 \<Rightarrow> (case rest of None \<Rightarrow> None | Some r \<Rightarrow> Some (t0 @ ts @ r)))"

fun lex :: "pending \<Rightarrow> string \<Rightarrow> token list option" where
  "lex p [] = flush p"
| "lex p (c # cs) =
     (if is_digit c then
        (case p of
           NoToken \<Rightarrow> lex (Digits [c]) cs
         | Digits ds \<Rightarrow> lex (Digits (ds @ [c])) cs
         | Letters n \<Rightarrow> lex (Letters (n @ [c])) cs)
      else if is_upper c \<or> c = CHR ''_'' then
        (case p of
           NoToken \<Rightarrow> lex (Letters [c]) cs
         | Digits ds \<Rightarrow> None
         | Letters n \<Rightarrow> lex (Letters (n @ [c])) cs)
      else if c = CHR '' '' then emit p [] (lex NoToken cs)
      else if c = CHR ''+'' then emit p [PLUS] (lex NoToken cs)
      else if c = CHR ''-'' then emit p [MINUS] (lex NoToken cs)
      else if c = CHR ''%'' then emit p [PERCENT] (lex NoToken cs)
      else if c = CHR ''('' then emit p [LPAR] (lex NoToken cs)
      else if c = CHR '')'' then emit p [RPAR] (lex NoToken cs)
      else if c = CHR ''*'' then
        (case cs of
           [] \<Rightarrow> emit p [STAR] (Some [])
         | d # _ \<Rightarrow> if d = CHR ''*'' then None else emit p [STAR] (lex NoToken cs))
      else if c = CHR ''='' then
        (case cs of
           [] \<Rightarrow> emit p [EQUAL] (Some [])
         | d # _ \<Rightarrow> if d = CHR ''='' then None else emit p [EQUAL] (lex NoToken cs))
      else if c = CHR ''/'' then
        (case cs of
           [] \<Rightarrow> None
         | d # cs' \<Rightarrow> if d = CHR ''/'' then emit p [DOUBLESLASH] (lex NoToken cs') else None)
      else if c = CHR '':'' then
        (case cs of
           [] \<Rightarrow> None
         | d # cs' \<Rightarrow> if d = CHR ''='' then emit p [COLONEQUAL] (lex NoToken cs') else None)
      else None)"

definition tokenize :: "string \<Rightarrow> token list option" where
  "tokenize text = lex NoToken text"

text \<open>The syntax trees, with the names of Python's \<^verbatim>\<open>ast\<close> module.\<close>

datatype operator = Add | Sub | Mult | FloorDiv | Mod

datatype unaryop = UAdd | USub

datatype expr =
  Constant int | Name string | EmptyTuple | NamedExpr string expr | UnaryOp unaryop expr
  | BinOp expr operator expr

text \<open>
  A parser's answer: a tree and the tokens left, \<open>Invalid\<close> where Python raises
  \<^verbatim>\<open>SyntaxError\<close>, \<open>Beyond\<close> where the text leaves the fragment (an opening
  parenthesis behind an operand is a call).
\<close>

datatype parsed = Parsed expr "token list" | Invalid | Beyond

definition operand :: "expr \<Rightarrow> token list \<Rightarrow> parsed" where
  "operand e ts = (if ts \<noteq> [] \<and> hd ts = LPAR then Beyond else Parsed e ts)"

definition leaf :: "token \<Rightarrow> expr option" where
  "leaf t = (case t of NUMBER k \<Rightarrow> Some (Constant k) | NAME x \<Rightarrow> Some (Name x) | _ \<Rightarrow> None)"

text \<open>
  The target of an assignment expression \<^verbatim>\<open>(NAME := ...)\<close>, which Python allows right
  behind an opening parenthesis.
\<close>

definition target :: "token list \<Rightarrow> string option" where
  "target ts = (case ts of NAME x # COLONEQUAL # r \<Rightarrow> Some x | _ \<Rightarrow> None)"

definition sum_op :: "token \<Rightarrow> operator option" where
  "sum_op t = (case t of PLUS \<Rightarrow> Some Add | MINUS \<Rightarrow> Some Sub | _ \<Rightarrow> None)"

definition term_op :: "token \<Rightarrow> operator option" where
  "term_op t =
     (case t of STAR \<Rightarrow> Some Mult | DOUBLESLASH \<Rightarrow> Some FloorDiv | PERCENT \<Rightarrow> Some Mod
      | _ \<Rightarrow> None)"

definition sign_op :: "token \<Rightarrow> unaryop option" where
  "sign_op t = (case t of PLUS \<Rightarrow> Some UAdd | MINUS \<Rightarrow> Some USub | _ \<Rightarrow> None)"

text \<open>
  Recursive descent along Python's grammar; a \<open>rule\<close> names the nonterminal being
  read (\<^verbatim>\<open>sum\<close>, \<^verbatim>\<open>term\<close>, \<^verbatim>\<open>factor\<close>, \<^verbatim>\<open>atom\<close>, and the left-associative
  tails of the first two, which carry the tree read so far). The first argument bounds
  the depth of the descent.
\<close>

datatype rule = Sum | SumRest expr | Term | TermRest expr | Factor | Atom

definition continue :: "parsed \<Rightarrow> (expr \<Rightarrow> token list \<Rightarrow> parsed) \<Rightarrow> parsed" where
  "continue p k = (case p of Parsed e r \<Rightarrow> k e r | Invalid \<Rightarrow> Invalid | Beyond \<Rightarrow> Beyond)"

fun descend :: "nat \<Rightarrow> rule \<Rightarrow> token list \<Rightarrow> parsed" where
  "descend 0 g ts = Beyond"
| "descend (Suc n) Sum ts = continue (descend n Term ts) (\<lambda>l r. descend n (SumRest l) r)"
| "descend (Suc n) (SumRest l) ts =
     (case ts of
        [] \<Rightarrow> Parsed l []
      | t # r \<Rightarrow>
          (case sum_op t of
             None \<Rightarrow> Parsed l ts
           | Some op \<Rightarrow>
               continue (descend n Term r) (\<lambda>x r'. descend n (SumRest (BinOp l op x)) r')))"
| "descend (Suc n) Term ts = continue (descend n Factor ts) (\<lambda>l r. descend n (TermRest l) r)"
| "descend (Suc n) (TermRest l) ts =
     (case ts of
        [] \<Rightarrow> Parsed l []
      | t # r \<Rightarrow>
          (case term_op t of
             None \<Rightarrow> Parsed l ts
           | Some op \<Rightarrow>
               continue (descend n Factor r) (\<lambda>x r'. descend n (TermRest (BinOp l op x)) r')))"
| "descend (Suc n) Factor ts =
     (case ts of
        [] \<Rightarrow> Invalid
      | t # r \<Rightarrow>
          (case sign_op t of
             None \<Rightarrow> descend n Atom ts
           | Some op \<Rightarrow> continue (descend n Factor r) (\<lambda>x r'. Parsed (UnaryOp op x) r')))"
| "descend (Suc n) Atom ts =
     (case ts of
        [] \<Rightarrow> Invalid
      | t # r \<Rightarrow>
          (case leaf t of
             Some e \<Rightarrow> operand e r
           | None \<Rightarrow>
               if t \<noteq> LPAR then Invalid
               else if r \<noteq> [] \<and> hd r = RPAR then operand EmptyTuple (tl r)
               else
                 (case target r of
                    Some x \<Rightarrow>
                      continue (descend n Sum (drop 2 r))
                        (\<lambda>e r'. if r' \<noteq> [] \<and> hd r' = RPAR then operand (NamedExpr x e) (tl r')
                                else Invalid)
                  | None \<Rightarrow>
                      continue (descend n Sum r)
                        (\<lambda>e r'. if r' \<noteq> [] \<and> hd r' = RPAR then operand e (tl r') else Invalid))))"

definition parse :: "token list \<Rightarrow> exn + expr" where
  "parse ts =
     (case descend (6 * length ts + 6) Sum ts of
        Parsed e [] \<Rightarrow> Inr e
      | Parsed e (t # r) \<Rightarrow> Inl SyntaxError
      | Invalid \<Rightarrow> Inl SyntaxError
      | Beyond \<Rightarrow> Inl NotModelled)"

fun unary :: "unaryop \<Rightarrow> pyval \<Rightarrow> exn + pyval" where
  "unary UAdd (PyInt a) = Inr (PyInt a)"
| "unary USub (PyInt a) = Inr (PyInt (- a))"
| "unary op PyEmptyTuple = Inl TypeError"

text \<open>
  Python's \<^verbatim>\<open>//\<close> and \<^verbatim>\<open>%\<close> round towards minus infinity, as \<open>div\<close> and \<open>mod\<close> on
  \<^typ>\<open>int\<close> do. A tuple times an integer is the tuple repeated, for a count that fits
  a machine index (64 bits are taken); another count is left outside the fragment.
\<close>

definition repeat :: "int \<Rightarrow> exn + pyval" where
  "repeat b =
     (if - 9223372036854775808 \<le> b \<and> b \<le> 9223372036854775807 then Inr PyEmptyTuple
      else Inl NotModelled)"

fun binary :: "operator \<Rightarrow> pyval \<Rightarrow> pyval \<Rightarrow> exn + pyval" where
  "binary Add (PyInt a) (PyInt b) = Inr (PyInt (a + b))"
| "binary Add PyEmptyTuple PyEmptyTuple = Inr PyEmptyTuple"
| "binary Sub (PyInt a) (PyInt b) = Inr (PyInt (a - b))"
| "binary Mult (PyInt a) (PyInt b) = Inr (PyInt (a * b))"
| "binary Mult PyEmptyTuple (PyInt b) = repeat b"
| "binary Mult (PyInt a) PyEmptyTuple = repeat a"
| "binary FloorDiv (PyInt a) (PyInt b) =
     (if b = 0 then Inl ZeroDivisionError else Inr (PyInt (a div b)))"
| "binary Mod (PyInt a) (PyInt b) =
     (if b = 0 then Inl ZeroDivisionError else Inr (PyInt (a mod b)))"
| "binary op x y = Inl TypeError"

text \<open>
  A name is looked up in \<^verbatim>\<open>ChainMap(math.__dict__, req_values)\<close>, first map first, and
  then among the builtins. The names of the fragment have no lower-case letter, every
  name of the builtins has one: a name in neither map is a \<^verbatim>\<open>NameError\<close>. An
  assignment expression stores its value in the first map. Operands are evaluated from
  left to right, and what an operand wrote stays when a later one raises.
\<close>

fun eval_expr :: "namespace \<Rightarrow> namespace \<Rightarrow> expr \<Rightarrow> (exn + pyval) \<times> namespace" where
  "eval_expr m req (Constant k) = (Inr (PyInt k), m)"
| "eval_expr m req (Name x) =
     (case m x of
        Some v \<Rightarrow> (Inr v, m)
      | None \<Rightarrow> (case req x of Some v \<Rightarrow> (Inr v, m) | None \<Rightarrow> (Inl (NameError x), m)))"
| "eval_expr m req EmptyTuple = (Inr PyEmptyTuple, m)"
| "eval_expr m req (NamedExpr x e) =
     (case eval_expr m req e of
        (Inl err, m1) \<Rightarrow> (Inl err, m1)
      | (Inr v, m1) \<Rightarrow> (Inr v, m1(x \<mapsto> v)))"
| "eval_expr m req (UnaryOp op e) =
     (case eval_expr m req e of
        (Inl err, m1) \<Rightarrow> (Inl err, m1)
      | (Inr v, m1) \<Rightarrow> (unary op v, m1))"
| "eval_expr m req (BinOp l op r) =
     (case eval_expr m req l of
        (Inl err, m1) \<Rightarrow> (Inl err, m1)
      | (Inr a, m1) \<Rightarrow>
          (case eval_expr m1 req r of
             (Inl err, m2) \<Rightarrow> (Inl err, m2)
           | (Inr b, m2) \<Rightarrow> (binary op a b, m2)))"

definition py_eval :: evaluator where
  "py_eval text m req =
     (case tokenize text of
        None \<Rightarrow> (Inl NotModelled, m)
      | Some ts \<Rightarrow> (case parse ts of Inl x \<Rightarrow> (Inl x, m) | Inr e \<Rightarrow> eval_expr m req e))"

section \<open>Notions used in the statements\<close>

text \<open>A cell whose formula is \<^verbatim>\<open>None\<close> or the empty string.\<close>

definition blank :: "cell \<Rightarrow> bool" where
  "blank c = (formula c = None \<or> formula c = Some [])"

text \<open>\<^verbatim>\<open>current_reqs\<close>: the references of the cell's formula, in upper case.\<close>

definition references :: "cell \<Rightarrow> string set" where
  "references c = set (cell_references (upper (the (formula c))))"

text \<open>The dictionary \<^verbatim>\<open>req_values\<close> for the names \<open>R\<close>.\<close>

definition bindings :: "sheet \<Rightarrow> string set \<Rightarrow> namespace" where
  "bindings s R = (\<lambda>r. if r \<in> R then map_option val (cells s r) else None)"

text \<open>Reading a field of the cell stored under a name.\<close>

definition look :: "(cell \<Rightarrow> 'a) \<Rightarrow> string \<Rightarrow> sheet \<Rightarrow> 'a option" where
  "look field nm s = map_option field (cells s nm)"

text \<open>The sheet a run returned, if it returned one.\<close>

definition returned :: "(fault + sheet) option \<Rightarrow> sheet option" where
  "returned r = (case r of Some (Inr s) \<Rightarrow> Some s | _ \<Rightarrow> None)"

text \<open>
  The two relation sets are inverse to each other on the cells of the sheet and stay
  inside it; the sheet has finitely many cells.
\<close>

definition linked :: "sheet \<Rightarrow> bool" where
  "linked s =
     (finite (dom (cells s)) \<and>
      (\<forall>x cx. cells s x = Some cx \<longrightarrow> reqs cx \<subseteq> dom (cells s) \<and> deps cx \<subseteq> dom (cells s)) \<and>
      (\<forall>x y cx cy. cells s x = Some cx \<and> cells s y = Some cy \<longrightarrow> (y \<in> reqs cx \<longleftrightarrow> x \<in> deps cy)))"

text \<open>
  Every cell but those of \<open>X\<close> has been calculated since its formula was set: its
  \<^verbatim>\<open>reqs\<close> are the references of its formula, unless the formula is empty.
\<close>

definition settled_except :: "string set \<Rightarrow> sheet \<Rightarrow> bool" where
  "settled_except X s =
     (\<forall>x cx. cells s x = Some cx \<and> x \<notin> X \<longrightarrow> blank cx \<or> reqs cx = references cx)"

definition wellformed :: "sheet \<Rightarrow> bool" where
  "wellformed s = (linked s \<and> settled_except {} s)"

text \<open>No cell whose name is not two characters long is required by any cell.\<close>

definition unreferenced :: "sheet \<Rightarrow> bool" where
  "unreferenced s = (\<forall>x c. cells s x = Some c \<and> length x \<noteq> 2 \<longrightarrow> deps c = {})"


text \<open>The unhandled exception that ended a run, if one did.\<close>

definition raised :: "(fault + sheet) option \<Rightarrow> fault option" where
  "raised r = (case r of Some (Inl e) \<Rightarrow> Some e | _ \<Rightarrow> None)"

text \<open>
  The dependency graph: an edge leads from a cell to each cell of its \<^verbatim>\<open>deps\<close>, the
  cells that \<^verbatim>\<open>propagate\<close> recalculates for it.
\<close>

definition dependents :: "sheet \<Rightarrow> string \<Rightarrow> string set" where
  "dependents s x = (case cells s x of None \<Rightarrow> {} | Some c \<Rightarrow> deps c)"

definition depends :: "sheet \<Rightarrow> (string \<times> string) set" where
  "depends s = {(x, d). d \<in> dependents s x}"

text \<open>The facts about a sheet that a propagation pass keeps.\<close>

definition same_graph :: "sheet \<Rightarrow> sheet \<Rightarrow> bool" where
  "same_graph s s' = (wellformed s' \<and> dependents s' = dependents s \<and> dom (cells s') = dom (cells s))"

text \<open>
  What \<^verbatim>\<open>eval\<close> returns or raises for the formula of the cell \<open>c\<close>, and the namespace
  of \<^verbatim>\<open>math\<close> it leaves, when \<open>R\<close> are the names in \<^verbatim>\<open>req_values\<close>.
\<close>

definition evaluation :: "evaluator \<Rightarrow> sheet \<Rightarrow> cell \<Rightarrow> string set \<Rightarrow> (exn + pyval) \<times> namespace" where
  "evaluation ev s c R = ev (upper (the (formula c))) (math_dict s) (bindings s R)"








text \<open>
  The number of dependency paths of at most \<open>n\<close> steps that lead from \<open>x\<close> to \<open>y\<close>, for
  a graph given by the set of successors of each cell.
\<close>

fun walks :: "(string \<Rightarrow> string set) \<Rightarrow> nat \<Rightarrow> string \<Rightarrow> string \<Rightarrow> nat" where
  "walks succs 0 x y = 0"
| "walks succs (Suc n) x y = (\<Sum>d \<in> succs x. (if d = y then 1 else 0) + walks succs n d y)"

text \<open>The names of the cells recalculated by a run of edits, in order.\<close>

definition calls_of :: "(fault + sheet) option \<Rightarrow> string list option" where
  "calls_of r = map_option calls (returned r)"

section \<open>The loops of calculate\<close>

lemma cells_upd_cell: "cells (upd_cell nm f s) r = (if r = nm then map_option f (cells s nm) else cells s r)"
  by (simp add: upd_cell_def)

lemma reports_upd_cell: "reports (upd_cell nm f s) = reports s"
  by (simp add: upd_cell_def)

lemma calls_upd_cell: "calls (upd_cell nm f s) = calls s"
  by (simp add: upd_cell_def)

lemma math_dict_upd_cell: "math_dict (upd_cell nm f s) = math_dict s"
  by (simp add: upd_cell_def)

lemma add_dependent_Inr:
  "add_dependent nm rs s = Inr s' \<Longrightarrow>
     set rs \<subseteq> dom (cells s) \<and> reports s' = reports s \<and> calls s' = calls s \<and>
     math_dict s' = math_dict s \<and>
     (\<forall>r. cells s' r =
        (if r \<in> set rs then map_option (\<lambda>c. c\<lparr>deps := insert nm (deps c)\<rparr>) (cells s r)
         else cells s r))"
proof (induction rs arbitrary: s)
  case Nil
  then show ?case by simp
next
  case (Cons r rs)
  then obtain c where c: "cells s r = Some c" by (auto split: option.splits)
  let ?s1 = "upd_cell r (\<lambda>c. c\<lparr>deps := insert nm (deps c)\<rparr>) s"
  from Cons.prems c have "add_dependent nm rs ?s1 = Inr s'" by simp
  from Cons.IH [OF this] c show ?case
    by (auto simp: cells_upd_cell reports_upd_cell calls_upd_cell math_dict_upd_cell dom_def
          option.map_comp o_def split: if_splits)
qed


lemma remove_dependent_Inr:
  "remove_dependent nm rs s = Inr s' \<Longrightarrow>
     set rs \<subseteq> dom (cells s) \<and> reports s' = reports s \<and> calls s' = calls s \<and>
     math_dict s' = math_dict s \<and>
     (\<forall>r. cells s' r =
        (if r \<in> set rs then map_option (\<lambda>c. c\<lparr>deps := deps c - {nm}\<rparr>) (cells s r)
         else cells s r))"
proof (induction rs arbitrary: s)
  case Nil
  then show ?case by simp
next
  case (Cons r rs)
  then obtain c where c: "cells s r = Some c" by (auto split: option.splits)
  let ?s1 = "upd_cell r (\<lambda>c. c\<lparr>deps := deps c - {nm}\<rparr>) s"
  from Cons.prems c have "remove_dependent nm rs ?s1 = Inr s'" by (simp split: if_splits)
  from Cons.IH [OF this] c show ?case
    by (auto simp: cells_upd_cell reports_upd_cell calls_upd_cell math_dict_upd_cell dom_def
          option.map_comp o_def split: if_splits)
qed


lemma req_values_Inr:
  "req_values rs s = Inr m \<Longrightarrow>
     set rs \<subseteq> dom (cells s) \<and> m = (\<lambda>r. if r \<in> set rs then map_option val (cells s r) else None)"
proof (induction rs arbitrary: m)
  case Nil
  then show ?case by simp
next
  case (Cons r rs)
  then obtain c m' where c: "cells s r = Some c" "req_values rs s = Inr m'" "m = m'(r \<mapsto> val c)"
    by (auto split: option.splits sum.splits)
  from Cons.IH [OF c(2)] c show ?case by (auto simp: fun_eq_iff)
qed



section \<open>What calculate does\<close>

lemma finite_references [simp]: "finite (references c)"
  by (simp add: references_def)

lemma calculate_blank:
  "cells s nm = Some c \<Longrightarrow> blank c \<Longrightarrow>
     calculate ev it nm s = Inr (upd_cell nm (\<lambda>c. c\<lparr>val := PyInt 0\<rparr>) (s\<lparr>calls := calls s @ [nm]\<rparr>))"
  by (auto simp: calculate_def blank_def)

lemma calculate_missing: "cells s nm = None \<Longrightarrow> calculate ev it nm s = Inl (KeyError nm)"
  by (simp add: calculate_def)

lemma calculate_Inr:
  assumes it: "set_order_ok it" and c: "cells s nm = Some self" and nb: "\<not> blank self"
    and fin: "finite (reqs self)" and res: "calculate ev it nm s = Inr s'"
  shows "references self \<subseteq> dom (cells s)"
    and "calls s' = calls s @ [nm]"
    and "reports s' =
          (case fst (evaluation ev s self (references self)) of
             Inr v \<Rightarrow> reports s
           | Inl e \<Rightarrow> if error_shown self then reports s else reports s @ [e])"
    and "cells s' r =
          map_option (\<lambda>c.
            c\<lparr>deps := (if r \<in> references self - reqs self then insert nm (deps c)
                       else if r \<in> reqs self - references self then deps c - {nm}
                       else deps c),
              reqs := (if r = nm then references self else reqs c),
              val := (if r = nm
                      then (case fst (evaluation ev s self (references self)) of
                              Inr v \<Rightarrow> v | Inl e \<Rightarrow> val c)
                      else val c),
              error_shown := (if r = nm
                      then (case fst (evaluation ev s self (references self)) of
                              Inr v \<Rightarrow> False | Inl e \<Rightarrow> True)
                      else error_shown c)\<rparr>) (cells s r)"
    and "math_dict s' = snd (evaluation ev s self (references self))"
proof -
  let ?cur = "references self"
  let ?f = "upper (the (formula self))"
  let ?s = "s\<lparr>calls := calls s @ [nm]\<rparr>"
  let ?E = "evaluation ev s self ?cur"
  have fa: "finite (?cur - reqs self)" and fr: "finite (reqs self - ?cur)" and fc: "finite ?cur"
    using fin by auto
  from it fa fr fc have
    sa: "set (it (?cur - reqs self)) = ?cur - reqs self" and
    sr: "set (it (reqs self - ?cur)) = reqs self - ?cur" and
    sc: "set (it ?cur) = ?cur"
    by (auto simp: set_order_ok_def)
  from res c nb obtain s1 s2 env where
    s1: "add_dependent nm (it (?cur - reqs self)) ?s = Inr s1" and
    s2: "remove_dependent nm (it (reqs self - ?cur)) s1 = Inr s2" and
    env: "req_values (it ?cur) s2 = Inr env" and
    s': "s' = upd_cell nm (\<lambda>c. c\<lparr>reqs := ?cur\<rparr>) (try_eval ev nm ?f env s2)"
    by (auto simp: calculate_def blank_def references_def Let_def split: sum.splits)
  note A = add_dependent_Inr [OF s1, unfolded sa]
  note R = remove_dependent_Inr [OF s2, unfolded sr]
  note E = req_values_Inr [OF env, unfolded sc]
  have dom2: "dom (cells s2) = dom (cells s)"
    using A R by (auto simp: dom_def split: if_splits)
  have val2: "map_option val (cells s2 r) = map_option val (cells s r)" for r
    using A R by (auto simp: option.map_comp o_def)
  have env_eq: "env = bindings s ?cur"
    using E val2 by (auto simp: bindings_def fun_eq_iff)
  have md2: "math_dict s2 = math_dict s" using A R by simp
  have ev_eq: "ev ?f (math_dict s2) env = ?E"
    by (simp add: evaluation_def env_eq md2)
  obtain out m where out: "?E = (out, m)" by (cases ?E)
  have te: "try_eval ev nm ?f env s2 =
      (case out of
         Inr v \<Rightarrow> upd_cell nm (\<lambda>c. c\<lparr>val := v, error_shown := False\<rparr>) (s2\<lparr>math_dict := m\<rparr>)
       | Inl e \<Rightarrow>
          (case cells s2 nm of
             None \<Rightarrow> s2\<lparr>math_dict := m\<rparr>
           | Some c \<Rightarrow>
               if \<not> error_shown c
               then upd_cell nm (\<lambda>c. c\<lparr>error_shown := True\<rparr>)
                      (s2\<lparr>math_dict := m, reports := reports s2 @ [e]\<rparr>)
               else s2\<lparr>math_dict := m\<rparr>))"
    unfolding try_eval_def ev_eq out by (cases out) simp_all
  have fo: "fst ?E = out" and so: "snd ?E = m" by (simp_all add: out)
  show "?cur \<subseteq> dom (cells s)" using E dom2 by simp
  show "calls s' = calls s @ [nm]"
    using A R
    by (cases out; cases "cells s2 nm")
       (auto simp: s' calls_upd_cell te)
  have err2: "map_option error_shown (cells s2 nm) = Some (error_shown self)"
    using A R c by (auto simp: option.map_comp o_def)
  show "reports s' =
          (case fst ?E of
             Inr v \<Rightarrow> reports s
           | Inl e \<Rightarrow> if error_shown self then reports s else reports s @ [e])"
    using A R err2
    by (cases out; cases "cells s2 nm")
       (auto simp: s' reports_upd_cell te fo)
  show "math_dict s' = snd ?E"
    by (cases out; cases "cells s2 nm")
       (auto simp: s' math_dict_upd_cell te so)
  have c2: "cells s2 r =
      map_option (\<lambda>c. c\<lparr>deps := (if r \<in> ?cur - reqs self then insert nm (deps c)
                       else if r \<in> reqs self - ?cur then deps c - {nm}
                       else deps c)\<rparr>) (cells s r)"
    using A R by (cases "cells s r") auto
  show "cells s' r =
          map_option (\<lambda>c.
            c\<lparr>deps := (if r \<in> ?cur - reqs self then insert nm (deps c)
                       else if r \<in> reqs self - ?cur then deps c - {nm}
                       else deps c),
              reqs := (if r = nm then ?cur else reqs c),
              val := (if r = nm
                      then (case fst ?E of Inr v \<Rightarrow> v | Inl e \<Rightarrow> val c)
                      else val c),
              error_shown := (if r = nm
                      then (case fst ?E of Inr v \<Rightarrow> False | Inl e \<Rightarrow> True)
                      else error_shown c)\<rparr>) (cells s r)"
  proof (cases "cells s r")
    case None
    then show ?thesis
      using c2
      by (cases out; cases "cells s2 nm")
         (auto simp: s' cells_upd_cell te fo)
  next
    case (Some cr)
    show ?thesis
    proof (cases out)
      case (Inl e)
      then show ?thesis
        using c2 Some err2
        by (cases "r = nm"; cases "cells s2 nm")
           (auto simp: s' cells_upd_cell te fo)
    next
      case (Inr v)
      then show ?thesis
        using c2 Some
        by (cases "r = nm") (auto simp: s' cells_upd_cell te fo)
    qed
  qed
qed


lemma set_order_ok_sorted: "set_order_ok sorted_list_of_set"
  by (simp add: set_order_ok_def)

section \<open>Recalculation of a cell with an empty formula\<close>

text \<open>
  Claim C5, as the code has it: for a cell whose formula is empty or \<^verbatim>\<open>None\<close>,
  \<^verbatim>\<open>calculate\<close> returns without consulting the evaluator, whatever it is; it sets the
  value to 0 and changes nothing else: the error flag, the \<^verbatim>\<open>reqs\<close> set and the
  \<^verbatim>\<open>deps\<close> sets stay as they were, and nothing is reported.
\<close>

theorem calculate_blank_sets_value_only:
  assumes "cells s nm = Some c" and "blank c"
  shows "\<exists>s'. calculate ev it nm s = Inr s' \<and>
           cells s' = (cells s)(nm \<mapsto> c\<lparr>val := PyInt 0\<rparr>) \<and>
           math_dict s' = math_dict s \<and>
           reports s' = reports s \<and> calls s' = calls s @ [nm]"
  using assms
  by (auto simp: calculate_blank upd_cell_def)

text \<open>
  Claim C5 as the spec states it fails: after the formula \<^verbatim>\<open>A1+\<close> (a syntax error that
  refers to A1) the cell B1 has its error flag set and requires A1; recalculating it
  with the empty formula leaves both.
\<close>

theorem calculate_blank_counterexample:
  "Option.bind (returned (edits py_eval sorted_list_of_set 3 [(''B1'', ''A1+'')] (create_widgets 1 2)))
     (\<lambda>s. case calculate py_eval sorted_list_of_set ''B1'' (set_formula ''B1'' [] s) of
             Inl e \<Rightarrow> None
           | Inr s' \<Rightarrow> Some (look formula ''B1'' s', look val ''B1'' s', look error_shown ''B1'' s',
                             look reqs ''B1'' s', look deps ''A1'' s'))
   = Some (Some (Some []), Some (PyInt 0), Some True, Some {''A1''}, Some {''B1''})"
  by code_simp

theorem calculate_blank_sets_value_only_witness:
  "\<exists>s c s'.
     edits py_eval sorted_list_of_set 3 [(''B1'', ''A1+'')] (create_widgets 1 2) = Some (Inr s) \<and>
     cells (set_formula ''B1'' [] s) ''B1'' = Some c \<and> error_shown c \<and> reqs c = {''A1''} \<and>
     calculate py_eval sorted_list_of_set ''B1'' (set_formula ''B1'' [] s) = Inr s' \<and>
     cells s' = (cells (set_formula ''B1'' [] s))(''B1'' \<mapsto> c\<lparr>val := PyInt 0\<rparr>) \<and>
     math_dict s' = math_dict (set_formula ''B1'' [] s) \<and>
     reports s' = reports (set_formula ''B1'' [] s) \<and>
     calls s' = calls (set_formula ''B1'' [] s) @ [''B1'']"
proof -
  let ?it = "sorted_list_of_set :: string set \<Rightarrow> string list"
  have "Option.bind (returned (edits py_eval ?it 3 [(''B1'', ''A1+'')] (create_widgets 1 2)))
          (\<lambda>s. Some (look formula ''B1'' (set_formula ''B1'' [] s),
                      look error_shown ''B1'' (set_formula ''B1'' [] s),
                      look reqs ''B1'' (set_formula ''B1'' [] s)))
        = Some (Some (Some []), Some True, Some {''A1''})"
    by code_simp
  then obtain s where s: "edits py_eval ?it 3 [(''B1'', ''A1+'')] (create_widgets 1 2) = Some (Inr s)"
    and f: "look formula ''B1'' (set_formula ''B1'' [] s) = Some (Some [])"
    and e: "look error_shown ''B1'' (set_formula ''B1'' [] s) = Some True"
    and r: "look reqs ''B1'' (set_formula ''B1'' [] s) = Some {''A1''}"
    by (cases "edits py_eval ?it 3 [(''B1'', ''A1+'')] (create_widgets 1 2)")
       (auto simp: returned_def split: sum.splits)
  from f obtain c where c: "cells (set_formula ''B1'' [] s) ''B1'' = Some c"
    by (auto simp: look_def)
  with f e r have fields: "formula c = Some []" "error_shown c" "reqs c = {''A1''}"
    by (simp_all add: look_def)
  then have "blank c" by (simp add: blank_def)
  from calculate_blank_sets_value_only [OF c this, of py_eval ?it] s c fields
  show ?thesis by blast
qed


section \<open>The relation sets stay inverse\<close>


lemma linked_finite_dom: "linked s \<Longrightarrow> finite (dom (cells s))"
  by (simp add: linked_def)

lemma linked_reqs_dom: "linked s \<Longrightarrow> cells s x = Some cx \<Longrightarrow> reqs cx \<subseteq> dom (cells s)"
  unfolding linked_def by blast

lemma linked_deps_dom: "linked s \<Longrightarrow> cells s x = Some cx \<Longrightarrow> deps cx \<subseteq> dom (cells s)"
  unfolding linked_def by blast

lemma linked_iff:
  "linked s \<Longrightarrow> cells s x = Some cx \<Longrightarrow> cells s y = Some cy \<Longrightarrow> (y \<in> reqs cx) = (x \<in> deps cy)"
  unfolding linked_def by blast

lemma linkedI:
  assumes "finite (dom (cells s))"
    and "\<And>x cx. cells s x = Some cx \<Longrightarrow> reqs cx \<subseteq> dom (cells s)"
    and "\<And>x cx. cells s x = Some cx \<Longrightarrow> deps cx \<subseteq> dom (cells s)"
    and "\<And>x y cx cy. cells s x = Some cx \<Longrightarrow> cells s y = Some cy \<Longrightarrow> (y \<in> reqs cx) = (x \<in> deps cy)"
  shows "linked s"
  unfolding linked_def using assms by blast

lemma linked_finite:
  "linked s \<Longrightarrow> cells s x = Some cx \<Longrightarrow> finite (reqs cx) \<and> finite (deps cx)"
  using linked_finite_dom linked_reqs_dom linked_deps_dom by (meson finite_subset)

text \<open>A sheet whose cells differ from those of a linked sheet in other fields only.\<close>

lemma linked_same_relations:
  assumes l: "linked s"
    and f: "\<And>x. rel_option (\<lambda>c' c. reqs c' = reqs c \<and> deps c' = deps c) (cells s' x) (cells s x)"
  shows "linked s'"
proof -
  have d: "dom (cells s') = dom (cells s)"
  proof (rule set_eqI)
    fix x show "x \<in> dom (cells s') \<longleftrightarrow> x \<in> dom (cells s)"
      using f [of x] by (cases "cells s x"; cases "cells s' x") auto
  qed
  have g: "\<exists>cx. cells s x = Some cx \<and> reqs cx' = reqs cx \<and> deps cx' = deps cx"
    if "cells s' x = Some cx'" for x cx'
    using f [of x] that by (cases "cells s x") auto
  show ?thesis
  proof (rule linkedI)
    show "finite (dom (cells s'))" using l d by (simp add: linked_finite_dom)
  next
    fix x cx assume "cells s' x = Some cx"
    from g [OF this] obtain c0 where "cells s x = Some c0" "reqs cx = reqs c0" by blast
    with linked_reqs_dom [OF l] d show "reqs cx \<subseteq> dom (cells s')" by simp
  next
    fix x cx assume "cells s' x = Some cx"
    from g [OF this] obtain c0 where "cells s x = Some c0" "deps cx = deps c0" by blast
    with linked_deps_dom [OF l] d show "deps cx \<subseteq> dom (cells s')" by simp
  next
    fix x y cx cy assume ax: "cells s' x = Some cx" and ay: "cells s' y = Some cy"
    from g [OF ax] obtain cx0 where x0: "cells s x = Some cx0" "reqs cx = reqs cx0" by blast
    from g [OF ay] obtain cy0 where y0: "cells s y = Some cy0" "deps cy = deps cy0" by blast
    from linked_iff [OF l x0(1) y0(1)] x0(2) y0(2)
    show "(y \<in> reqs cx) = (x \<in> deps cy)" by simp
  qed
qed


lemma linked_set_formula: "linked s \<Longrightarrow> linked (set_formula nm text s)"
proof (erule linked_same_relations)
  fix x
  show "rel_option (\<lambda>c' c. reqs c' = reqs c \<and> deps c' = deps c)
          (cells (set_formula nm text s) x) (cells s x)"
    by (cases "cells s x") (auto simp: set_formula_def cells_upd_cell)
qed

lemma calculate_linked:
  assumes it: "set_order_ok it" and l: "linked s" and res: "calculate ev it nm s = Inr s'"
  shows "linked s'"
proof -
  from res obtain self where c: "cells s nm = Some self"
    by (cases "cells s nm") (auto simp: calculate_missing)
  show ?thesis
  proof (cases "blank self")
    case True
    with c res have s': "s' = upd_cell nm (\<lambda>c. c\<lparr>val := PyInt 0\<rparr>) (s\<lparr>calls := calls s @ [nm]\<rparr>)"
      by (simp add: calculate_blank)
    show ?thesis
    proof (rule linked_same_relations [OF l])
      fix x
      show "rel_option (\<lambda>c' c. reqs c' = reqs c \<and> deps c' = deps c) (cells s' x) (cells s x)"
        by (cases "cells s x") (auto simp: s' cells_upd_cell)
    qed
  next
    case False
    from linked_finite [OF l c] have fin: "finite (reqs self)" by simp
    note C = calculate_Inr [OF it c False fin res]
    have d: "dom (cells s') = dom (cells s)"
      by (auto simp: C(4) dom_def)
    have nmd: "nm \<in> dom (cells s)" using c by auto
    have rx: "\<exists>cx0. cells s x = Some cx0 \<and> reqs cx = (if x = nm then references self else reqs cx0)"
      if "cells s' x = Some cx" for x cx
      using that by (cases "cells s x") (auto simp: C(4))
    have dy: "\<exists>cy0. cells s y = Some cy0 \<and>
               deps cy = (if y \<in> references self - reqs self then insert nm (deps cy0)
                       else if y \<in> reqs self - references self then deps cy0 - {nm}
                       else deps cy0)"
      if "cells s' y = Some cy" for y cy
      using that by (cases "cells s y") (auto simp: C(4))
    show ?thesis
    proof (rule linkedI)
      show "finite (dom (cells s'))" using l d by (simp add: linked_finite_dom)
    next
      fix x cx assume "cells s' x = Some cx"
      from rx [OF this] obtain cx0 where
        x0: "cells s x = Some cx0" and r: "reqs cx = (if x = nm then references self else reqs cx0)"
        by blast
      from linked_reqs_dom [OF l x0] C(1) r show "reqs cx \<subseteq> dom (cells s')"
        unfolding d by (cases "x = nm") simp_all
    next
      fix y cy assume "cells s' y = Some cy"
      from dy [OF this] obtain cy0 where y0: "cells s y = Some cy0" and
        dd: "deps cy = (if y \<in> references self - reqs self then insert nm (deps cy0)
                       else if y \<in> reqs self - references self then deps cy0 - {nm}
                       else deps cy0)"
        by blast
      from dd have "deps cy \<subseteq> insert nm (deps cy0)" by (auto split: if_splits)
      with linked_deps_dom [OF l y0] nmd show "deps cy \<subseteq> dom (cells s')"
        unfolding d by blast
    next
      fix x y cx cy assume ax: "cells s' x = Some cx" and ay: "cells s' y = Some cy"
      from rx [OF ax] obtain cx0 where x0: "cells s x = Some cx0"
        and r: "reqs cx = (if x = nm then references self else reqs cx0)"
        by blast
      from dy [OF ay] obtain cy0 where y0: "cells s y = Some cy0"
        and dd: "deps cy = (if y \<in> references self - reqs self then insert nm (deps cy0)
                       else if y \<in> reqs self - references self then deps cy0 - {nm}
                       else deps cy0)"
        by blast
      have base: "(y \<in> reqs cx0) = (x \<in> deps cy0)"
        using linked_iff [OF l x0 y0] .
      have selfb: "(y \<in> reqs self) = (nm \<in> deps cy0)"
        using linked_iff [OF l c y0] .
      show "(y \<in> reqs cx) = (x \<in> deps cy)"
      proof (cases "x = nm")
        case True
        with x0 c have "cx0 = self" by simp
        with True r dd selfb show ?thesis by auto
      next
        case False
        with r dd base show ?thesis by auto
      qed
    qed
  qed
qed


section \<open>Recalculation of a cell with a formula\<close>



section \<open>Properties kept by propagation and by edits\<close>

lemma propagate_preserves_aux:
  "(\<And>d s s'. P s \<Longrightarrow> calculate ev it d s = Inr s' \<Longrightarrow> P s') \<Longrightarrow>
     P s \<Longrightarrow> propagate ev it n nm s = Some (Inr s') \<Longrightarrow> P s'"
  "(\<And>d s s'. P s \<Longrightarrow> calculate ev it d s = Inr s' \<Longrightarrow> P s') \<Longrightarrow>
     P s \<Longrightarrow> propagate_loop ev it n nm k ds s = Some (Inr s') \<Longrightarrow> P s'"
proof (induction ev it n nm s and ev it n nm k ds s arbitrary: s' and s'
       rule: propagate_propagate_loop.induct)
  case (1 ev it nm s)
  then show ?case by simp
next
  case (2 ev it n nm s)
  from "2.prems"(3) obtain self where c: "cells s nm = Some self"
    by (cases "cells s nm") auto
  with "2.prems"(3) have "propagate_loop ev it n nm (card (deps self)) (it (deps self)) s = Some (Inr s')"
    by simp
  from "2.IH" [OF c "2.prems"(1) "2.prems"(2) this] show ?case by simp
next
  case (3 ev it n nm size0 ds s)
  note run = "3.prems"(3) [unfolded propagate_loop.simps [of ev it n nm size0 ds s]]
  from run obtain self where c: "cells s nm = Some self"
    by (cases "cells s nm") auto
  from run c have k: "\<not> card (deps self) \<noteq> size0"
    by (auto split: if_splits)
  show ?case
  proof (cases ds)
    case Nil
    with run c k show ?thesis using "3.prems"(2) by simp
  next
    case (Cons d ds')
    from run c k Cons obtain s1 where s1: "calculate ev it d s = Inr s1"
      by (cases "calculate ev it d s") auto
    from run c k Cons s1 obtain s2 where s2: "propagate ev it n d s1 = Some (Inr s2)"
      by (cases "propagate ev it n d s1") (auto split: sum.splits)
    from run c k Cons s1 s2 have rest: "propagate_loop ev it n nm size0 ds' s2 = Some (Inr s')"
      by simp
    have p1: "P s1" using "3.prems"(1) [OF "3.prems"(2) s1] .
    have p2: "P s2" using "3.IH"(1) [OF c k Cons s1 "3.prems"(1) p1 s2] by simp
    show ?thesis
      using "3.IH"(2) [OF c k Cons s1 s2 refl "3.prems"(1) p2 rest] by simp
  qed
qed

text \<open>An edit that returns a sheet: its \<^verbatim>\<open>calculate\<close> and its \<^verbatim>\<open>propagate\<close> returned.\<close>

lemma edit_Inr:
  assumes "edit ev it n e s = Some (Inr s')"
  shows "\<exists>s1. calculate ev it (fst e) (set_formula (fst e) (snd e) s) = Inr s1 \<and>
           propagate ev it n (fst e) s1 = Some (Inr s')"
proof (cases "calculate ev it (fst e) (set_formula (fst e) (snd e) s)")
  case (Inl x)
  with assms show ?thesis by (simp add: edit_def display_def)
next
  case (Inr s1)
  show ?thesis
  proof (cases "propagate ev it n (fst e) s1")
    case None
    with assms Inr show ?thesis by (simp add: edit_def display_def)
  next
    case (Some r)
    show ?thesis
    proof (cases r)
      case (Inl x)
      with assms Inr Some show ?thesis by (simp add: edit_def display_def)
    next
      case s2: (Inr s2)
      with assms Inr Some have "s2 = s'"
        by (cases "cells s2 (fst e)") (auto simp: edit_def display_def split: if_splits)
      with Inr Some s2 show ?thesis by simp
    qed
  qed
qed

lemma edits_preserves:
  assumes calc: "\<And>d s s'. P s \<Longrightarrow> calculate ev it d s = Inr s' \<Longrightarrow> P s'"
    and ed: "\<And>nm text s s'. P s \<Longrightarrow> calculate ev it nm (set_formula nm text s) = Inr s' \<Longrightarrow> P s'"
  shows "P s \<Longrightarrow> edits ev it n es s = Some (Inr s') \<Longrightarrow> P s'"
proof (induction es arbitrary: s)
  case Nil
  then show ?case by simp
next
  case (Cons e es)
  from Cons.prems(2) obtain s2 where e: "edit ev it n e s = Some (Inr s2)"
    and rest: "edits ev it n es s2 = Some (Inr s')"
    by (auto split: option.splits sum.splits)
  from edit_Inr [OF e] obtain s1 where
    s1: "calculate ev it (fst e) (set_formula (fst e) (snd e) s) = Inr s1"
    and pr: "propagate ev it n (fst e) s1 = Some (Inr s2)"
    by blast
  have "P s1" using ed [OF Cons.prems(1) s1] .
  have "P s2"
  proof (rule propagate_preserves_aux(1) [where P = P and ev = ev and it = it])
    show "\<And>d s s'. P s \<Longrightarrow> calculate ev it d s = Inr s' \<Longrightarrow> P s'" by (rule calc)
    show "P s1" by fact
    show "propagate ev it n (fst e) s1 = Some (Inr s2)" by (rule pr)
  qed
  then show ?case using Cons.IH rest by blast
qed


section \<open>Well-formed sheets\<close>

lemma references_cong: "formula c' = formula c \<Longrightarrow> references c' = references c"
  by (simp add: references_def)

lemma blank_cong: "formula c' = formula c \<Longrightarrow> blank c' = blank c"
  by (simp add: blank_def)

lemma calculate_settled:
  assumes it: "set_order_ok it" and l: "linked s" and st: "settled_except {nm} s"
    and res: "calculate ev it nm s = Inr s'"
  shows "settled_except {} s'"
proof -
  from res obtain self where c: "cells s nm = Some self"
    by (cases "cells s nm") (auto simp: calculate_missing)
  show ?thesis
  proof (cases "blank self")
    case True
    with c res have s': "s' = upd_cell nm (\<lambda>c. c\<lparr>val := PyInt 0\<rparr>) (s\<lparr>calls := calls s @ [nm]\<rparr>)"
      by (simp add: calculate_blank)
    show ?thesis
      unfolding settled_except_def
    proof (intro allI impI)
      fix x cx assume a: "cells s' x = Some cx \<and> x \<notin> {}"
      show "blank cx \<or> reqs cx = references cx"
      proof (cases "x = nm")
        case True
        with a c have "cx = self\<lparr>val := PyInt 0\<rparr>" by (simp add: s' cells_upd_cell)
        with \<open>blank self\<close> show ?thesis by (simp add: blank_def)
      next
        case False
        with a have "cells s x = Some cx" by (simp add: s' cells_upd_cell)
        with st False show ?thesis by (auto simp: settled_except_def)
      qed
    qed
  next
    case False
    from linked_finite [OF l c] have fin: "finite (reqs self)" by simp
    note C = calculate_Inr [OF it c False fin res]
    show ?thesis
      unfolding settled_except_def
    proof (intro allI impI)
      fix x cx assume a: "cells s' x = Some cx \<and> x \<notin> {}"
      then obtain cx0 where x0: "cells s x = Some cx0"
        by (cases "cells s x") (auto simp: C(4))
      from a x0 have f: "formula cx = formula cx0"
        and r: "reqs cx = (if x = nm then references self else reqs cx0)"
        by (auto simp: C(4))
      show "blank cx \<or> reqs cx = references cx"
      proof (cases "x = nm")
        case True
        with x0 c have "cx0 = self" by simp
        with True r references_cong [OF f] show ?thesis by simp
      next
        case False
        with st x0 have "blank cx0 \<or> reqs cx0 = references cx0"
          by (auto simp: settled_except_def)
        with False r references_cong [OF f] blank_cong [OF f] show ?thesis by simp
      qed
    qed
  qed
qed

lemma settled_set_formula: "settled_except {} s \<Longrightarrow> settled_except {nm} (set_formula nm text s)"
  by (auto simp: settled_except_def set_formula_def cells_upd_cell)

lemma settled_weaken: "settled_except {} s \<Longrightarrow> settled_except {nm} s"
  by (auto simp: settled_except_def)

lemma calculate_wellformed:
  "set_order_ok it \<Longrightarrow> wellformed s \<Longrightarrow> calculate ev it nm s = Inr s' \<Longrightarrow> wellformed s'"
  unfolding wellformed_def
  using calculate_linked calculate_settled settled_weaken by blast

lemma edit_calculate_wellformed:
  "set_order_ok it \<Longrightarrow> wellformed s \<Longrightarrow>
     calculate ev it nm (set_formula nm text s) = Inr s' \<Longrightarrow> wellformed s'"
  unfolding wellformed_def
  using calculate_linked calculate_settled settled_set_formula linked_set_formula by blast

lemma create_widgets_cell: "cells (create_widgets rows cols) x = Some c \<Longrightarrow> c = new_cell"
  by (auto simp: create_widgets_def dest!: map_of_SomeD)

lemma wellformed_create_widgets: "wellformed (create_widgets rows cols)"
proof -
  have "finite (dom (cells (create_widgets rows cols)))"
    by (simp add: create_widgets_def finite_dom_map_of)
  moreover have "reqs c = {} \<and> deps c = {} \<and> blank c"
    if "cells (create_widgets rows cols) x = Some c" for x c
    using create_widgets_cell [OF that] by (simp add: new_cell_def blank_def)
  ultimately show ?thesis
    unfolding wellformed_def linked_def settled_except_def by fastforce
qed

lemma edits_wellformed:
  assumes it: "set_order_ok it" and w: "wellformed s" and run: "edits ev it n es s = Some (Inr s')"
  shows "wellformed s'"
proof (rule edits_preserves [where P = wellformed and ev = ev and it = it])
  show "\<And>d s s'. wellformed s \<Longrightarrow> calculate ev it d s = Inr s' \<Longrightarrow> wellformed s'"
    using it by (rule calculate_wellformed)
  show "\<And>nm text s s'. wellformed s \<Longrightarrow> calculate ev it nm (set_formula nm text s) = Inr s' \<Longrightarrow> wellformed s'"
    using it by (rule edit_calculate_wellformed)
  show "wellformed s" by fact
  show "edits ev it n es s = Some (Inr s')" by fact
qed

section \<open>The invariant of the relation sets\<close>

text \<open>
  Claim C1: after any sequence of edits of a fresh grid that returns, for all cells X and
  Y of the sheet, Y is in the \<^verbatim>\<open>reqs\<close> of X if and only if X is in the \<^verbatim>\<open>deps\<close> of Y.
  It holds for every evaluator and every iteration order of the sets.
\<close>

theorem requires_inverse_of_required_by:
  assumes "set_order_ok it"
    and "edits ev it n es (create_widgets rows cols) = Some (Inr s)"
    and "cells s x = Some cx" and "cells s y = Some cy"
  shows "y \<in> reqs cx \<longleftrightarrow> x \<in> deps cy"
proof -
  have "wellformed s"
    using edits_wellformed [OF assms(1) wellformed_create_widgets assms(2)] .
  then have "linked s" by (simp add: wellformed_def)
  from linked_iff [OF this assms(3) assms(4)] show ?thesis .
qed

theorem requires_inverse_of_required_by_witness:
  "\<exists>s cx cy.
     edits py_eval sorted_list_of_set 3 [(''A1'', ''5''), (''B1'', ''A1+1'')] (create_widgets 1 2) = Some (Inr s) \<and>
     cells s ''B1'' = Some cx \<and> cells s ''A1'' = Some cy \<and>
     ''A1'' \<in> reqs cx \<and> ''B1'' \<in> deps cy \<and> ''B1'' \<notin> reqs cy \<and> ''A1'' \<notin> deps cx"
proof -
  let ?run = "edits py_eval sorted_list_of_set 3 [(''A1'', ''5''), (''B1'', ''A1+1'')] (create_widgets 1 2)"
  have "Option.bind (returned ?run) (\<lambda>s. Some (look reqs ''B1'' s, look reqs ''A1'' s))
      = Some (Some {''A1''}, Some {})"
    by code_simp
  then obtain s cx cy where s: "?run = Some (Inr s)"
    and cx: "cells s ''B1'' = Some cx" and cy: "cells s ''A1'' = Some cy"
    and r: "reqs cx = {''A1''}" "reqs cy = {}"
    by (auto simp: returned_def look_def split: option.splits sum.splits Option.bind_splits)
  from requires_inverse_of_required_by [OF set_order_ok_sorted s cx cy]
       requires_inverse_of_required_by [OF set_order_ok_sorted s cy cx] r s cx cy
  show ?thesis by simp
qed


section \<open>Cells from row 10 on\<close>

lemma findall_shape:
  "r \<in> set (findall prev text) \<Longrightarrow> \<exists>c d. r = [c, d] \<and> is_upper c \<and> is_digit d"
  by (induction prev "text" rule: findall.induct) (auto split: if_splits)

lemma cell_references_shape:
  "r \<in> set (cell_references text) \<Longrightarrow> \<exists>c d. r = [c, d] \<and> is_upper c \<and> is_digit d"
  unfolding cell_references_def by (rule findall_shape)

lemma cell_references_length: "r \<in> set (cell_references t) \<Longrightarrow> length r = 2"
  using cell_references_shape [of r t] by auto

lemma str_nat_nonempty: "str_nat n \<noteq> []"
  by (subst str_nat.simps) simp

lemma str_nat_two_digits: "10 \<le> n \<Longrightarrow> 2 \<le> length (str_nat n)"
  using str_nat_nonempty [of "n div 10"]
  by (subst str_nat.simps) (cases "str_nat (n div 10)"; simp)

lemma cell_name_long: "9 \<le> i \<Longrightarrow> 3 \<le> length (cell_name i j)"
  using str_nat_two_digits [of "i + 1"] by (simp add: cell_name_def)

lemma calculate_unreferenced:
  assumes it: "set_order_ok it" and p: "linked s \<and> unreferenced s"
    and res: "calculate ev it nm s = Inr s'"
  shows "linked s' \<and> unreferenced s'"
proof
  from p have l: "linked s" and u: "unreferenced s" by simp_all
  show "linked s'" using calculate_linked [OF it l res] .
  from res obtain self where c: "cells s nm = Some self"
    by (cases "cells s nm") (auto simp: calculate_missing)
  show "unreferenced s'"
  proof (cases "blank self")
    case True
    with c res have s': "s' = upd_cell nm (\<lambda>c. c\<lparr>val := PyInt 0\<rparr>) (s\<lparr>calls := calls s @ [nm]\<rparr>)"
      by (simp add: calculate_blank)
    show ?thesis
      unfolding unreferenced_def
    proof (intro allI impI)
      fix x cx assume a: "cells s' x = Some cx \<and> length x \<noteq> 2"
      then obtain c0 where "cells s x = Some c0" "deps cx = deps c0"
        by (cases "cells s x") (auto simp: s' cells_upd_cell split: if_splits)
      with u a show "deps cx = {}" by (auto simp: unreferenced_def)
    qed
  next
    case False
    from linked_finite [OF l c] have fin: "finite (reqs self)" by simp
    note C = calculate_Inr [OF it c False fin res]
    show ?thesis
      unfolding unreferenced_def
    proof (intro allI impI)
      fix x cx assume a: "cells s' x = Some cx \<and> length x \<noteq> 2"
      then obtain c0 where x0: "cells s x = Some c0"
        by (cases "cells s x") (auto simp: C(4))
      from a have "x \<notin> references self"
        using cell_references_length [of x] by (auto simp: references_def)
      with a x0 have "deps cx \<subseteq> deps c0"
        by (auto simp: C(4) split: if_splits)
      moreover from u a x0 have "deps c0 = {}" by (auto simp: unreferenced_def)
      ultimately show "deps cx = {}" by simp
    qed
  qed
qed

lemma edits_unreferenced:
  assumes it: "set_order_ok it" and run: "edits ev it n es (create_widgets rows cols) = Some (Inr s')"
  shows "unreferenced s'"
proof -
  have "linked s' \<and> unreferenced s'"
  proof (rule edits_preserves [where P = "\<lambda>s. linked s \<and> unreferenced s" and ev = ev and it = it])
    show "\<And>d s s'. linked s \<and> unreferenced s \<Longrightarrow> calculate ev it d s = Inr s' \<Longrightarrow> linked s' \<and> unreferenced s'"
      using it by (rule calculate_unreferenced)
    show "linked s' \<and> unreferenced s'"
      if "linked s \<and> unreferenced s" and "calculate ev it nm (set_formula nm ftext s) = Inr s'"
      for nm ftext s s'
    proof (rule calculate_unreferenced [OF it _ that(2)])
      have "unreferenced (set_formula nm ftext s)"
        using that(1) by (auto simp: unreferenced_def set_formula_def cells_upd_cell split: if_splits)
      with that(1) show "linked (set_formula nm ftext s) \<and> unreferenced (set_formula nm ftext s)"
        by (simp add: linked_set_formula)
    qed
    have "deps c = {}" if "cells (create_widgets rows cols) x = Some c" for x c
      using create_widgets_cell [OF that] by (simp add: new_cell_def)
    then have "unreferenced (create_widgets rows cols)"
      unfolding unreferenced_def by blast
    then show "linked (create_widgets rows cols) \<and> unreferenced (create_widgets rows cols)"
      using wellformed_create_widgets [of rows cols] by (simp add: wellformed_def)
    show "edits ev it n es (create_widgets rows cols) = Some (Inr s')" by fact
  qed
  then show ?thesis by simp
qed

text \<open>
  Claim C10: the name of a cell in row 10 or beyond (row index 9 or more) has three
  characters or more; every reference extracted from a formula is an upper-case letter
  followed by one digit, so no such name is ever extracted; and after any sequence of
  edits of a fresh grid the \<^verbatim>\<open>deps\<close> set of such a cell is empty.
\<close>

theorem rows_from_ten_never_required:
  "(9 \<le> i \<longrightarrow> 3 \<le> length (cell_name i j)) \<and>
   (\<forall>r \<in> set (cell_references text). \<exists>c d. r = [c, d] \<and> is_upper c \<and> is_digit d) \<and>
   (9 \<le> i \<longrightarrow> cell_name i j \<notin> set (cell_references text)) \<and>
   (set_order_ok it \<and> edits ev it n es (create_widgets rows cols) = Some (Inr s) \<and>
      9 \<le> i \<and> cells s (cell_name i j) = Some c \<longrightarrow> deps c = {})"
proof (intro conjI impI ballI)
  show "3 \<le> length (cell_name i j)" if "9 \<le> i" using that by (rule cell_name_long)
  show "\<exists>c d. r = [c, d] \<and> is_upper c \<and> is_digit d" if "r \<in> set (cell_references text)" for r
    using that by (rule cell_references_shape)
  show "cell_name i j \<notin> set (cell_references text)" if "9 \<le> i"
    using cell_name_long [OF that, of j] cell_references_shape [of "cell_name i j" "text"] by auto
  show "deps c = {}"
    if "set_order_ok it \<and> edits ev it n es (create_widgets rows cols) = Some (Inr s) \<and>
        9 \<le> i \<and> cells s (cell_name i j) = Some c"
  proof -
    from that have "unreferenced s" using edits_unreferenced by blast
    moreover from that have "length (cell_name i j) \<noteq> 2" using cell_name_long [of i j] by simp
    ultimately show ?thesis using that by (auto simp: unreferenced_def)
  qed
qed

theorem rows_from_ten_never_required_witness:
  "3 \<le> length (cell_name 9 0) \<and>
   cell_name 9 0 \<notin> set (cell_references ''A10+1'') \<and>
   (\<exists>s c. edits py_eval sorted_list_of_set 3 [(''A1'', ''A10+1''), (''A10'', ''A1'')] (create_widgets 10 1) = Some (Inr s) \<and>
      cells s (cell_name 9 0) = Some c \<and> deps c = {})"
proof -
  let ?run = "edits py_eval sorted_list_of_set 3 [(''A1'', ''A10+1''), (''A10'', ''A1'')] (create_widgets 10 1)"
  have "Option.bind (returned ?run) (look deps (cell_name 9 0)) = Some {}"
    by code_simp
  then obtain s where s: "?run = Some (Inr s)" and "look deps (cell_name 9 0) s = Some {}"
    by (cases "?run") (auto simp: returned_def split: sum.splits)
  then obtain c where c: "cells s (cell_name 9 0) = Some c"
    by (auto simp: look_def)
  have T: "(9 \<le> (9::nat) \<longrightarrow> 3 \<le> length (cell_name 9 0)) \<and>
   (\<forall>r \<in> set (cell_references ''A10+1''). \<exists>c d. r = [c, d] \<and> is_upper c \<and> is_digit d) \<and>
   (9 \<le> (9::nat) \<longrightarrow> cell_name 9 0 \<notin> set (cell_references ''A10+1'')) \<and>
   (set_order_ok sorted_list_of_set \<and> ?run = Some (Inr s) \<and>
      9 \<le> (9::nat) \<and> cells s (cell_name 9 0) = Some c \<longrightarrow> deps c = {})"
    by (rule rows_from_ten_never_required)
  have "deps c = {}" using T set_order_ok_sorted s c by simp
  moreover have "3 \<le> length (cell_name 9 0)" using T by simp
  moreover have "cell_name 9 0 \<notin> set (cell_references ''A10+1'')" using T by simp
  ultimately show ?thesis using s c by blast
qed


section \<open>Concrete sheets\<close>

text \<open>
  Claim C9 as the spec states it fails: \<^verbatim>\<open>calculate\<close> hands the text of the cell to
  \<^verbatim>\<open>eval\<close> as it is, and no Python expression begins with \<^verbatim>\<open>=\<close>. In the 10 by 10
  grid of \<^verbatim>\<open>main\<close>, after editing A1 to \<^verbatim>\<open>=5\<close> and B1 to \<^verbatim>\<open>=A1+1\<close> both values are
  still 0 and two syntax errors have been shown.
\<close>

theorem leading_equals_counterexample:
  "Option.bind (returned (edits py_eval sorted_list_of_set 1000 [(''A1'', ''=5''), (''B1'', ''=A1+1'')] (create_widgets 10 10)))
     (\<lambda>s. Some (look val ''A1'' s, look val ''B1'' s, reports s))
   = Some (Some (PyInt 0), Some (PyInt 0), [SyntaxError, SyntaxError])"
  by code_simp

text \<open>
  Claim C9, as the code has it (formulas are written without a leading \<^verbatim>\<open>=\<close>):
  starting from the fresh grid, editing A1 to \<^verbatim>\<open>5\<close> and then B1 to \<^verbatim>\<open>A1+1\<close> gives B1
  the value 6, and editing A1 to \<^verbatim>\<open>10\<close> afterwards propagates, so that B1 has the
  value 11. The sets iterated here have at most one element, so the iteration order
  plays no part.
\<close>

theorem edits_recompute_dependent:
  "Option.bind (returned (edits py_eval sorted_list_of_set 1000 [(''A1'', ''5''), (''B1'', ''A1+1'')] (create_widgets 10 10)))
     (look val ''B1'') = Some (PyInt 6) \<and>
   Option.bind (returned (edits py_eval sorted_list_of_set 1000 [(''A1'', ''5''), (''B1'', ''A1+1''), (''A1'', ''10'')] (create_widgets 10 10)))
     (look val ''B1'') = Some (PyInt 11)"
  by code_simp

text \<open>
  Claim C6 fails on the code: \<^verbatim>\<open>self.siblings[r]\<close> is evaluated outside the \<^verbatim>\<open>try\<close>
  block, so a formula that names a cell the grid does not have (row 0 never exists,
  column Z does not exist in the 10 by 10 grid) ends \<^verbatim>\<open>calculate\<close> with an unhandled
  \<^verbatim>\<open>KeyError\<close>.
\<close>

theorem missing_cell_raises_key_error:
  "raised (edits py_eval sorted_list_of_set 1000 [(''A1'', ''A0'')] (create_widgets 10 10)) = Some (KeyError ''A0'') \<and>
   raised (edits py_eval sorted_list_of_set 1000 [(''A1'', ''5''), (''B1'', ''A1+Z9'')] (create_widgets 10 10)) = Some (KeyError ''Z9'')"
  by code_simp




section \<open>Reporting of failures\<close>




section \<open>Recalculation in a well-formed sheet\<close>


lemma calculate_wellformed_frame:
  assumes it: "set_order_ok it" and w: "wellformed s" and res: "calculate ev it nm s = Inr s'"
  shows "rel_option (\<lambda>c' c. formula c' = formula c \<and> reqs c' = reqs c \<and> deps c' = deps c \<and>
            (r \<noteq> nm \<longrightarrow> c' = c)) (cells s' r) (cells s r)"
proof -
  from res obtain self where c: "cells s nm = Some self"
    by (cases "cells s nm") (auto simp: calculate_missing)
  show ?thesis
  proof (cases "blank self")
    case True
    with c res have s': "s' = upd_cell nm (\<lambda>c. c\<lparr>val := PyInt 0\<rparr>) (s\<lparr>calls := calls s @ [nm]\<rparr>)"
      by (simp add: calculate_blank)
    show ?thesis by (cases "cells s r") (auto simp: s' cells_upd_cell)
  next
    case False
    from w have l: "linked s" and st: "settled_except {} s" by (simp_all add: wellformed_def)
    from st c False have r: "reqs self = references self" by (auto simp: settled_except_def)
    from linked_finite [OF l c] have fin: "finite (reqs self)" by simp
    note C = calculate_Inr [OF it c False fin res]
    show ?thesis
    proof (cases "cells s r")
      case None
      then show ?thesis by (simp add: C(4))
    next
      case (Some cr)
      show ?thesis
      proof (cases "r = nm")
        case True
        with Some c r show ?thesis by (simp add: C(4))
      next
        case False
        with Some r show ?thesis by (simp add: C(4))
      qed
    qed
  qed
qed

lemma calculate_wellformed_dom:
  assumes "set_order_ok it" and "wellformed s" and "calculate ev it nm s = Inr s'"
  shows "dom (cells s') = dom (cells s)"
proof (rule set_eqI)
  fix r
  show "r \<in> dom (cells s') \<longleftrightarrow> r \<in> dom (cells s)"
    using calculate_wellformed_frame [OF assms, of r]
    by (cases "cells s r"; cases "cells s' r") auto
qed

lemma calculate_wellformed_dependents:
  assumes "set_order_ok it" and "wellformed s" and "calculate ev it nm s = Inr s'"
  shows "dependents s' = dependents s"
proof (rule ext)
  fix r
  show "dependents s' r = dependents s r"
    using calculate_wellformed_frame [OF assms, of r]
    by (cases "cells s r"; cases "cells s' r") (auto simp: dependents_def)
qed

lemma calculate_calls: "calculate ev it nm s = Inr s' \<Longrightarrow> set_order_ok it \<Longrightarrow> wellformed s \<Longrightarrow> calls s' = calls s @ [nm]"
proof -
  assume res: "calculate ev it nm s = Inr s'" and it: "set_order_ok it" and w: "wellformed s"
  from res obtain self where c: "cells s nm = Some self"
    by (cases "cells s nm") (auto simp: calculate_missing)
  show ?thesis
  proof (cases "blank self")
    case True
    with c res show ?thesis by (auto simp: calculate_blank calls_upd_cell)
  next
    case False
    from w have l: "linked s" by (simp add: wellformed_def)
    from linked_finite [OF l c] have fin: "finite (reqs self)" by simp
    show ?thesis using calculate_Inr(2) [OF it c False fin res] .
  qed
qed

lemma same_graph_refl: "wellformed s \<Longrightarrow> same_graph s s"
  by (simp add: same_graph_def)

lemma calculate_same_graph:
  assumes it: "set_order_ok it" and g: "same_graph s0 s" and res: "calculate ev it nm s = Inr s'"
  shows "same_graph s0 s'"
  using g calculate_wellformed [OF it _ res] calculate_wellformed_dependents [OF it _ res]
    calculate_wellformed_dom [OF it _ res]
  by (simp add: same_graph_def)

lemma propagate_same_graph:
  assumes it: "set_order_ok it" and g: "same_graph s0 s" and res: "propagate ev it n nm s = Some (Inr s')"
  shows "same_graph s0 s'"
proof (rule propagate_preserves_aux(1) [where P = "same_graph s0" and ev = ev and it = it])
  show "\<And>d s s'. same_graph s0 s \<Longrightarrow> calculate ev it d s = Inr s' \<Longrightarrow> same_graph s0 s'"
    using it by (rule calculate_same_graph)
  show "same_graph s0 s" by fact
  show "propagate ev it n nm s = Some (Inr s')" by fact
qed


section \<open>Termination of propagation\<close>





lemma dependents_dom: "wellformed s \<Longrightarrow> dependents s x \<subseteq> dom (cells s)"
  unfolding wellformed_def
  using linked_deps_dom [of s x] by (cases "cells s x") (auto simp: dependents_def)

lemma finite_dependents: "wellformed s \<Longrightarrow> finite (dependents s x)"
  using dependents_dom [of s x] linked_finite_dom [of s]
  by (auto simp: wellformed_def intro: finite_subset)





text \<open>In a well-formed sheet no exception leaves a propagation pass.\<close>

lemma same_graph_cell:
  assumes "same_graph s0 s" and "x \<in> dom (cells s0)"
  shows "\<exists>self. cells s x = Some self \<and> deps self = dependents s0 x"
proof -
  from assms have "x \<in> dom (cells s)" by (simp add: same_graph_def)
  then obtain self where c: "cells s x = Some self" by blast
  from assms(1) have "dependents s x = dependents s0 x" by (simp add: same_graph_def)
  with c show ?thesis by (simp add: dependents_def)
qed

lemma same_graph_dependents_dom:
  "same_graph s0 s \<Longrightarrow> dependents s0 x \<subseteq> dom (cells s0)"
  using dependents_dom [of s x] by (simp add: same_graph_def)

lemma same_graph_finite_dependents:
  "same_graph s0 s \<Longrightarrow> finite (dependents s0 x)"
  using finite_dependents [of s x] by (simp add: same_graph_def)






section \<open>Values after a propagation pass\<close>



text \<open>What a recalculation does to the formulas, values and \<^verbatim>\<open>reqs\<close> of a linked sheet.\<close>

lemma calculate_linked_effect:
  assumes it: "set_order_ok it" and l: "linked s" and c: "cells s nm = Some self"
    and res: "calculate ev it nm s = Inr s'"
  shows "\<exists>c'. cells s' nm = Some c' \<and> formula c' = formula self \<and>
           reqs c' = (if blank self then reqs self else references self) \<and>
           val c' = (if blank self then PyInt 0
                     else (case fst (evaluation ev s self (references self)) of
                             Inr v \<Rightarrow> v | Inl e \<Rightarrow> val self))"
    and "r \<noteq> nm \<Longrightarrow> rel_option (\<lambda>c' c. formula c' = formula c \<and> reqs c' = reqs c \<and> val c' = val c)
           (cells s' r) (cells s r)"
    and "math_dict s' =
           (if blank self then math_dict s else snd (evaluation ev s self (references self)))"
proof -
  have "(\<exists>c'. cells s' nm = Some c' \<and> formula c' = formula self \<and>
           reqs c' = (if blank self then reqs self else references self) \<and>
           val c' = (if blank self then PyInt 0
                     else (case fst (evaluation ev s self (references self)) of
                             Inr v \<Rightarrow> v | Inl e \<Rightarrow> val self))) \<and>
        (r \<noteq> nm \<longrightarrow> rel_option (\<lambda>c' c. formula c' = formula c \<and> reqs c' = reqs c \<and> val c' = val c)
           (cells s' r) (cells s r)) \<and>
        math_dict s' =
           (if blank self then math_dict s else snd (evaluation ev s self (references self)))"
  proof (cases "blank self")
    case True
    with c res have s': "s' = upd_cell nm (\<lambda>c. c\<lparr>val := PyInt 0\<rparr>) (s\<lparr>calls := calls s @ [nm]\<rparr>)"
      by (simp add: calculate_blank)
    show ?thesis using True c
      by (cases "cells s r") (auto simp: s' cells_upd_cell math_dict_upd_cell)
  next
    case False
    from linked_finite [OF l c] have fin: "finite (reqs self)" by simp
    note C = calculate_Inr [OF it c False fin res]
    have "cells s' nm = Some (the (cells s' nm))" using c by (simp add: C(4))
    moreover have "formula (the (cells s' nm)) = formula self"
      "reqs (the (cells s' nm)) = references self"
      "val (the (cells s' nm)) = (case fst (evaluation ev s self (references self)) of
                             Inr v \<Rightarrow> v | Inl e \<Rightarrow> val self)"
      using c by (simp_all add: C(4))
    moreover have "r \<noteq> nm \<longrightarrow> rel_option (\<lambda>c' c. formula c' = formula c \<and> reqs c' = reqs c \<and> val c' = val c)
           (cells s' r) (cells s r)"
      by (cases "cells s r") (simp_all add: C(4))
    ultimately show ?thesis using False C(5) by auto
  qed
  then show "\<exists>c'. cells s' nm = Some c' \<and> formula c' = formula self \<and>
           reqs c' = (if blank self then reqs self else references self) \<and>
           val c' = (if blank self then PyInt 0
                     else (case fst (evaluation ev s self (references self)) of
                             Inr v \<Rightarrow> v | Inl e \<Rightarrow> val self))"
    and "r \<noteq> nm \<Longrightarrow> rel_option (\<lambda>c' c. formula c' = formula c \<and> reqs c' = reqs c \<and> val c' = val c)
           (cells s' r) (cells s r)"
    and "math_dict s' =
           (if blank self then math_dict s else snd (evaluation ev s self (references self)))"
    by blast+
qed





lemma same_graph_linked: "same_graph s0 s \<Longrightarrow> linked s"
  by (simp add: same_graph_def wellformed_def)

lemma same_graph_dependents: "same_graph s0 s \<Longrightarrow> dependents s x = dependents s0 x"
  by (simp add: same_graph_def)



lemma trancl_first_step: "(x, y) \<in> r\<^sup>+ \<Longrightarrow> \<exists>d. (x, d) \<in> r \<and> (y = d \<or> (d, y) \<in> r\<^sup>+)"
  by (metis tranclD rtrancl_eq_or_trancl)





section \<open>Edits\<close>




























text \<open>Reading the result of an evaluated run.\<close>

lemma bind_returned_Some:
  assumes "Option.bind (returned r) f = Some v"
  shows "\<exists>s. r = Some (Inr s) \<and> f s = Some v"
proof (cases r)
  case None
  with assms show ?thesis by (simp add: returned_def)
next
  case (Some a)
  with assms show ?thesis by (cases a) (simp_all add: returned_def)
qed

lemma calculate_case_Some:
  assumes "(case calculate ev it nm s of Inl e \<Rightarrow> None | Inr s1 \<Rightarrow> f s1) = Some v"
  shows "\<exists>s1. calculate ev it nm s = Inr s1 \<and> f s1 = Some v"
  using assms by (cases "calculate ev it nm s") simp_all


section \<open>The cells a pass recalculates\<close>

lemma calculate_calls_linked:
  assumes it: "set_order_ok it" and l: "linked s" and res: "calculate ev it nm s = Inr s'"
  shows "calls s' = calls s @ [nm]"
proof -
  from res obtain self where c: "cells s nm = Some self"
    by (cases "cells s nm") (auto simp: calculate_missing)
  show ?thesis
  proof (cases "blank self")
    case True
    with c res show ?thesis by (auto simp: calculate_blank calls_upd_cell)
  next
    case False
    from linked_finite [OF l c] have fin: "finite (reqs self)" by simp
    show ?thesis using calculate_Inr(2) [OF it c False fin res] .
  qed
qed

lemma propagate_calls_aux:
  "set_order_ok it \<Longrightarrow> same_graph s0 s \<Longrightarrow> nm \<in> dom (cells s0) \<Longrightarrow>
     propagate ev it n nm s = Some (Inr s') \<Longrightarrow>
     \<exists>tr. calls s' = calls s @ tr \<and>
       (\<forall>y. count_list tr y = walks (dependents s0) n nm y) \<and>
       set tr = {y. (nm, y) \<in> (depends s0)\<^sup>+}"
  "set_order_ok it \<Longrightarrow> same_graph s0 s \<Longrightarrow> nm \<in> dom (cells s0) \<Longrightarrow>
     set ds \<subseteq> dependents s0 nm \<Longrightarrow>
     propagate_loop ev it n nm sz ds s = Some (Inr s') \<Longrightarrow>
     \<exists>tr. calls s' = calls s @ tr \<and>
       (\<forall>y. count_list tr y = (\<Sum>d\<leftarrow>ds. (if d = y then 1 else 0) + walks (dependents s0) n d y)) \<and>
       set tr = (\<Union>d \<in> set ds. insert d {y. (d, y) \<in> (depends s0)\<^sup>+})"
proof (induction ev it n nm s and ev it n nm sz ds s arbitrary: s' and s'
       rule: propagate_propagate_loop.induct)
  case (1 ev it nm s)
  then show ?case by simp
next
  case (2 ev it n nm s)
  from same_graph_cell [OF "2.prems"(2,3)] obtain self where
    c: "cells s nm = Some self" and d: "deps self = dependents s0 nm" by blast
  have fin: "finite (dependents s0 nm)"
    using same_graph_finite_dependents [OF "2.prems"(2)] .
  have st: "set (it (deps self)) = dependents s0 nm" and di: "distinct (it (deps self))"
    using "2.prems"(1) fin d by (simp_all add: set_order_ok_def)
  from "2.prems"(4) c have run: "propagate_loop ev it n nm (card (deps self)) (it (deps self)) s = Some (Inr s')"
    by simp
  from "2.IH" [OF c "2.prems"(1-3) _ run] st obtain tr where
    tr: "calls s' = calls s @ tr"
    "\<forall>y. count_list tr y = (\<Sum>d\<leftarrow>it (deps self). (if d = y then 1 else 0) + walks (dependents s0) n d y)"
    "set tr = (\<Union>d \<in> dependents s0 nm. insert d {y. (d, y) \<in> (depends s0)\<^sup>+})"
    by auto
  have "count_list tr y = walks (dependents s0) (Suc n) nm y" for y
    using tr(2) sum_list_distinct_conv_sum_set [OF di, of "\<lambda>d. (if d = y then 1 else 0) + walks (dependents s0) n d y"] st
    by simp
  moreover have "set tr = {y. (nm, y) \<in> (depends s0)\<^sup>+}"
  proof (rule set_eqI)
    fix y
    have "(nm, y) \<in> (depends s0)\<^sup>+ \<longleftrightarrow> (\<exists>d \<in> dependents s0 nm. y = d \<or> (d, y) \<in> (depends s0)\<^sup>+)"
    proof
      assume "(nm, y) \<in> (depends s0)\<^sup>+"
      from trancl_first_step [OF this] show "\<exists>d \<in> dependents s0 nm. y = d \<or> (d, y) \<in> (depends s0)\<^sup>+"
        by (auto simp: depends_def)
    next
      assume "\<exists>d \<in> dependents s0 nm. y = d \<or> (d, y) \<in> (depends s0)\<^sup>+"
      then obtain d where "(nm, d) \<in> depends s0" "y = d \<or> (d, y) \<in> (depends s0)\<^sup>+"
        by (auto simp: depends_def)
      then show "(nm, y) \<in> (depends s0)\<^sup>+" by (auto intro: trancl_into_trancl2)
    qed
    then show "y \<in> set tr \<longleftrightarrow> y \<in> {y. (nm, y) \<in> (depends s0)\<^sup>+}"
      using tr(3) by auto
  qed
  ultimately show ?case using tr(1) by blast
next
  case (3 ev it n nm sz ds s)
  note run = "3.prems"(5) [unfolded propagate_loop.simps [of ev it n nm sz ds s]]
  from run obtain self where c: "cells s nm = Some self"
    by (cases "cells s nm") auto
  from run c have k: "\<not> card (deps self) \<noteq> sz"
    by (auto split: if_splits)
  show ?case
  proof (cases ds)
    case Nil
    with run c k show ?thesis by simp
  next
    case (Cons d ds')
    from run c k Cons obtain s1 where s1: "calculate ev it d s = Inr s1"
      by (cases "calculate ev it d s") auto
    from run c k Cons s1 obtain s2 where s2: "propagate ev it n d s1 = Some (Inr s2)"
      by (cases "propagate ev it n d s1") (auto split: sum.splits)
    from run c k Cons s1 s2 have rest: "propagate_loop ev it n nm sz ds' s2 = Some (Inr s')"
      by simp
    from Cons "3.prems"(4) have dd: "d \<in> dependents s0 nm" and ds': "set ds' \<subseteq> dependents s0 nm"
      by simp_all
    from dd same_graph_dependents_dom [OF "3.prems"(2), of nm] have d: "d \<in> dom (cells s0)"
      by blast
    have g1: "same_graph s0 s1" using calculate_same_graph [OF "3.prems"(1,2) s1] .
    have g2: "same_graph s0 s2" using propagate_same_graph [OF "3.prems"(1) g1 s2] .
    have c1: "calls s1 = calls s @ [d]"
      using calculate_calls_linked [OF "3.prems"(1) same_graph_linked [OF "3.prems"(2)] s1] .
    from "3.IH"(1) [OF c k Cons s1 "3.prems"(1) g1 d s2] obtain tr1 where
      tr1: "calls s2 = calls s1 @ tr1" "\<forall>y. count_list tr1 y = walks (dependents s0) n d y"
      "set tr1 = {y. (d, y) \<in> (depends s0)\<^sup>+}"
      by blast
    from "3.IH"(2) [OF c k Cons s1 s2 refl "3.prems"(1) g2 "3.prems"(3) ds' rest] obtain tr2 where
      tr2: "calls s' = calls s2 @ tr2"
      "\<forall>y. count_list tr2 y = (\<Sum>d\<leftarrow>ds'. (if d = y then 1 else 0) + walks (dependents s0) n d y)"
      "set tr2 = (\<Union>d \<in> set ds'. insert d {y. (d, y) \<in> (depends s0)\<^sup>+})"
      by blast
    let ?tr = "d # tr1 @ tr2"
    have "calls s' = calls s @ ?tr" using c1 tr1(1) tr2(1) by simp
    moreover have "\<forall>y. count_list ?tr y = (\<Sum>d\<leftarrow>ds. (if d = y then 1 else 0) + walks (dependents s0) n d y)"
      using tr1(2) tr2(2) Cons by auto
    moreover have "set ?tr = (\<Union>d \<in> set ds. insert d {y. (d, y) \<in> (depends s0)\<^sup>+})"
      using tr1(3) tr2(3) Cons by auto
    ultimately show ?thesis by blast
  qed
qed

section \<open>Termination and cycles\<close>




section \<open>How often a dependent is recalculated\<close>

text \<open>
  Claim C3 as the spec states it fails: in the diamond where B1 and C1 depend on A1
  and D1 depends on B1 and C1, an edit of A1 recalculates D1 twice, once after B1 and
  once after C1. The second list of calls is that of the first three edits followed by
  the calls of the edit of A1.
\<close>

theorem true_diamond_counterexample:
  "calls_of (edits py_eval sorted_list_of_set 1000
      [(''B1'', ''A1''), (''C1'', ''A1''), (''D1'', ''B1+C1'')] (create_widgets 10 10))
     = Some [''B1'', ''C1'', ''D1''] \<and>
   calls_of (edits py_eval sorted_list_of_set 1000
      [(''B1'', ''A1''), (''C1'', ''A1''), (''D1'', ''B1+C1''), (''A1'', ''5'')] (create_widgets 10 10))
     = Some ([''B1'', ''C1'', ''D1''] @ [''A1'', ''B1'', ''D1'', ''C1'', ''D1''])"
  by code_simp

text \<open>
  Claim C3, as the code has it: \<^verbatim>\<open>propagate\<close> recalculates a dependent once for each
  path of \<^verbatim>\<open>deps\<close> edges that leads to it from the edited cell. For an edit of a sheet
  reached from the fresh grid, the calls of \<^verbatim>\<open>calculate\<close> are that of the edited cell
  followed by the calls of the propagation; the cells called there are exactly the
  cells transitively dependent on the edited one, each as many times as there are
  paths to it. Where C1 depends on A1 and B1 and D1 depends on C1, there is one path
  from A1 to D1, and an edit of A1 recalculates D1 once.
\<close>

theorem dependents_recalculated_once_per_path:
  assumes "set_order_ok it"
    and "edits ev it k es (create_widgets rows cols) = Some (Inr s)"
    and "calculate ev it nm (set_formula nm ftext s) = Inr s1"
    and "propagate ev it n nm s1 = Some (Inr s')"
  shows "(\<exists>tr. calls s' = calls s @ nm # tr \<and>
            set tr = {y. (nm, y) \<in> (depends s1)\<^sup>+} \<and>
            (\<forall>y. count_list tr y = walks (dependents s1) n nm y)) \<and>
         calls_of (edits py_eval sorted_list_of_set 1000
            [(''C1'', ''A1+B1''), (''D1'', ''C1'')] (create_widgets 10 10))
           = Some [''C1'', ''D1''] \<and>
         calls_of (edits py_eval sorted_list_of_set 1000
            [(''C1'', ''A1+B1''), (''D1'', ''C1''), (''A1'', ''5'')] (create_widgets 10 10))
           = Some ([''C1'', ''D1''] @ [''A1'', ''C1'', ''D1''])"
proof -
  have w: "wellformed s"
    using edits_wellformed [OF assms(1) wellformed_create_widgets assms(2)] .
  then have l0: "linked (set_formula nm ftext s)"
    by (simp add: wellformed_def linked_set_formula)
  have w1: "wellformed s1" using edit_calculate_wellformed [OF assms(1) w assms(3)] .
  have c1: "calls s1 = calls s @ [nm]"
    using calculate_calls_linked [OF assms(1) l0 assms(3)] by (simp add: set_formula_def calls_upd_cell)
  from assms(3) obtain self where "cells (set_formula nm ftext s) nm = Some self"
    by (cases "cells (set_formula nm ftext s) nm") (auto simp: calculate_missing)
  with calculate_linked_effect(1) [OF assms(1) l0 _ assms(3)] obtain c' where "cells s1 nm = Some c'"
    by blast
  then have d: "nm \<in> dom (cells s1)" by blast
  from propagate_calls_aux(1) [OF assms(1) same_graph_refl [OF w1] d assms(4)] obtain tr where
    "calls s' = calls s1 @ tr" "\<forall>y. count_list tr y = walks (dependents s1) n nm y"
    "set tr = {y. (nm, y) \<in> (depends s1)\<^sup>+}"
    by blast
  with c1 have "\<exists>tr. calls s' = calls s @ nm # tr \<and>
            set tr = {y. (nm, y) \<in> (depends s1)\<^sup>+} \<and>
            (\<forall>y. count_list tr y = walks (dependents s1) n nm y)"
    by auto
  moreover have "calls_of (edits py_eval sorted_list_of_set 1000
            [(''C1'', ''A1+B1''), (''D1'', ''C1'')] (create_widgets 10 10))
           = Some [''C1'', ''D1'']"
    by code_simp
  moreover have "calls_of (edits py_eval sorted_list_of_set 1000
            [(''C1'', ''A1+B1''), (''D1'', ''C1''), (''A1'', ''5'')] (create_widgets 10 10))
           = Some ([''C1'', ''D1''] @ [''A1'', ''C1'', ''D1''])"
    by code_simp
  ultimately show ?thesis by blast
qed

theorem dependents_recalculated_once_per_path_witness:
  "\<exists>s s1 s' tr.
     edits py_eval sorted_list_of_set 3 [(''B1'', ''A1''), (''C1'', ''A1''), (''D1'', ''B1+C1'')]
       (create_widgets 1 4) = Some (Inr s) \<and>
     calculate py_eval sorted_list_of_set ''A1'' (set_formula ''A1'' ''5'' s) = Inr s1 \<and>
     propagate py_eval sorted_list_of_set 3 ''A1'' s1 = Some (Inr s') \<and>
     calls s' = calls s @ ''A1'' # tr \<and>
     set tr = {y. (''A1'', y) \<in> (depends s1)\<^sup>+} \<and>
     count_list tr ''D1'' = walks (dependents s1) 3 ''A1'' ''D1'' \<and>
     tr = [''B1'', ''D1'', ''C1'', ''D1'']"
proof -
  let ?it = "sorted_list_of_set :: string set \<Rightarrow> string list"
  have "Option.bind (returned (edits py_eval ?it 3 [(''B1'', ''A1''), (''C1'', ''A1''), (''D1'', ''B1+C1'')]
            (create_widgets 1 4)))
          (\<lambda>s. case calculate py_eval ?it ''A1'' (set_formula ''A1'' ''5'' s) of
                  Inl e \<Rightarrow> None
                | Inr s1 \<Rightarrow> Option.bind (returned (propagate py_eval ?it 3 ''A1'' s1))
                    (\<lambda>s'. Some (calls s, calls s')))
        = Some ([''B1'', ''C1'', ''D1''], [''B1'', ''C1'', ''D1''] @ ''A1'' # [''B1'', ''D1'', ''C1'', ''D1''])"
    by code_simp
  from bind_returned_Some [OF this] obtain s where
    s: "edits py_eval ?it 3 [(''B1'', ''A1''), (''C1'', ''A1''), (''D1'', ''B1+C1'')]
          (create_widgets 1 4) = Some (Inr s)"
    and "(case calculate py_eval ?it ''A1'' (set_formula ''A1'' ''5'' s) of
                  Inl e \<Rightarrow> None
                | Inr s1 \<Rightarrow> Option.bind (returned (propagate py_eval ?it 3 ''A1'' s1))
                    (\<lambda>s'. Some (calls s, calls s')))
        = Some ([''B1'', ''C1'', ''D1''], [''B1'', ''C1'', ''D1''] @ ''A1'' # [''B1'', ''D1'', ''C1'', ''D1''])"
    by blast
  from calculate_case_Some [OF this(2)] obtain s1 where
    s1: "calculate py_eval ?it ''A1'' (set_formula ''A1'' ''5'' s) = Inr s1"
    and "Option.bind (returned (propagate py_eval ?it 3 ''A1'' s1)) (\<lambda>s'. Some (calls s, calls s'))
        = Some ([''B1'', ''C1'', ''D1''], [''B1'', ''C1'', ''D1''] @ ''A1'' # [''B1'', ''D1'', ''C1'', ''D1''])"
    by blast
  from bind_returned_Some [OF this(2)] obtain s' where
    s': "propagate py_eval ?it 3 ''A1'' s1 = Some (Inr s')"
    and cs: "calls s = [''B1'', ''C1'', ''D1'']"
      "calls s' = [''B1'', ''C1'', ''D1''] @ ''A1'' # [''B1'', ''D1'', ''C1'', ''D1'']"
    by auto
  from dependents_recalculated_once_per_path [OF set_order_ok_sorted s s1 s']
  obtain tr where tr: "calls s' = calls s @ ''A1'' # tr"
    "set tr = {y. (''A1'', y) \<in> (depends s1)\<^sup>+}"
    "\<forall>y. count_list tr y = walks (dependents s1) 3 ''A1'' y"
    by blast
  from tr(1) cs have "tr = [''B1'', ''D1'', ''C1'', ''D1'']" by simp
  with s s1 s' tr show ?thesis by blast
qed

section \<open>What a formula can reach\<close>

text \<open>
  Claim C7 fails on the code: an evaluation can have a side effect, and an identifier
  can resolve to something that is neither a cell value nor part of the library as it
  was loaded. In the 10 by 10 grid, after editing A1 to \<^verbatim>\<open>5\<close>, B1 to \<^verbatim>\<open>(A1:=7)\<close> and
  C1 to \<^verbatim>\<open>A1+1\<close>, the evaluation of B1 has stored 7 under A1 in the namespace of
  \<^verbatim>\<open>math\<close>, the first map of the \<^verbatim>\<open>ChainMap\<close>; the formula of C1 finds this 7 there,
  not the value 5 of the cell A1, and the value of C1 is 8. Nothing is reported.
\<close>

theorem assignment_shadows_cell_value:
  "Option.bind (returned (edits py_eval sorted_list_of_set 1000
        [(''A1'', ''5''), (''B1'', ''(A1:=7)''), (''C1'', ''A1+1'')] (create_widgets 10 10)))
     (\<lambda>s. Some (look val ''A1'' s, look val ''B1'' s, look val ''C1'' s, look reqs ''C1'' s,
                math_dict s ''A1'', reports s))
   = Some (Some (PyInt 5), Some (PyInt 7), Some (PyInt 8), Some {''A1''}, Some (PyInt 7), [])"
  by code_simp


end
